theory Spec2Isabelle
  imports Complex_Main "HOL-Library.Multiset" "HOL-Library.Char_ord" "HOL-Library.List_Lexorder"
    "HOL-Library.Log_Nat"
begin

section \<open>The model of \<^verbatim>\<open>cluster.py\<close>\<close>

text \<open>
  The floats of \<^verbatim>\<open>cluster.py\<close> are modelled by their exact values, as rationals, with
  exact arithmetic: comparisons are the comparisons of the floats, while \<^verbatim>\<open>+\<close>, \<^verbatim>\<open>-\<close>,
  \<^verbatim>\<open>*\<close> and \<^verbatim>\<open>/\<close> are taken without the rounding of the binary format. The enhancer
  is also given with the rounding of the format as a parameter, for the property that
  overflow and underflow decide. Cluster labels are the integers that the estimators
  return. Strings are lists of bytes.
\<close>

subsection \<open>Exceptions\<close>

text \<open>Exceptions of Python that the modelled code can raise.\<close>

datatype py_error = ValueError | IndexError | FileNotFoundError | NotModelled

subsection \<open>Segment merger\<close>

text \<open>
  An entry is the dictionary \<^verbatim>\<open>{'s': start, 'e': end, 'id': plabel}\<close> of
  \<^verbatim>\<open>assign_segments\<close>; the three fields are its three keys.
\<close>

record entry =
  ent_s :: rat
  ent_e :: rat
  ent_id :: int

text \<open>
  One round of the loop of \<^verbatim>\<open>assign_segments\<close>, for the pair \<^verbatim>\<open>(plabel, ev)\<close> with
  \<^verbatim>\<open>start = ev[0]\<close> and \<^verbatim>\<open>end = ev[1]\<close>. The list \<^verbatim>\<open>entries\<close> grows at its end, and
  \<^verbatim>\<open>entries[-1]\<close> is the only entry that is ever written to.
\<close>

definition assign_step :: "entry list \<Rightarrow> int \<times> (rat \<times> rat) \<Rightarrow> entry list" where
  "assign_step entries pe =
     (case pe of (plabel, (start, end)) \<Rightarrow>
        if entries = [] then
          entries @ [\<lparr>ent_s = start, ent_e = end, ent_id = plabel\<rparr>]
        else if ent_e (last entries) < start then
          entries @ [\<lparr>ent_s = start, ent_e = end, ent_id = plabel\<rparr>]
        else if ent_id (last entries) = plabel then
          butlast entries @ [(last entries)\<lparr>ent_e := end\<rparr>]
        else
          (let fuzzy_start = (ent_e (last entries) + start) / 2 in
             butlast entries @ [(last entries)\<lparr>ent_e := fuzzy_start\<rparr>,
               \<lparr>ent_s = fuzzy_start, ent_e = end, ent_id = plabel\<rparr>]))"

text \<open>
  \<^verbatim>\<open>for plabel, ev in zip(pred_labels, events)\<close>: the loop runs over the pairs, as many
  as the shorter of the two sequences has.
\<close>

definition assign_segments :: "int list \<Rightarrow> (rat \<times> rat) list \<Rightarrow> entry list" where
  "assign_segments pred_labels events = foldl assign_step [] (zip pred_labels events)"

text \<open>
  Two neighbouring entries: the first ends no later than the second starts, and if
  they carry the same label there is a gap between them.
\<close>

definition apart :: "entry \<Rightarrow> entry \<Rightarrow> bool" where
  "apart a b = (ent_e a \<le> ent_s b \<and> (ent_id a = ent_id b \<longrightarrow> ent_e a < ent_s b))"

subsection \<open>RTTM serializer\<close>

text \<open>The arguments that \<^verbatim>\<open>str.format\<close> receives here: a string, a float, an integer.\<close>

datatype pyval = PyStr string | PyFloat rat | PyInt int

definition digit_char :: "nat \<Rightarrow> char" where
  "digit_char d = ''0123456789'' ! (d mod 10)"

fun str_nat :: "nat \<Rightarrow> string" where
  "str_nat n = (if n < 10 then [digit_char n] else str_nat (n div 10) @ [digit_char (n mod 10)])"

declare str_nat.simps [simp del]

text \<open>\<^verbatim>\<open>str\<close> of an integer: its decimal digits, after a minus sign when negative.\<close>

definition str_int :: "int \<Rightarrow> string" where
  "str_int i = (if i < 0 then ''-'' @ str_nat (nat (- i)) else str_nat (nat i))"

definition round_half_even :: "rat \<Rightarrow> int" where
  "round_half_even q =
     (let f = \<lfloor>q\<rfloor>; r = q - of_int f in
      if r < 1 / 2 then f else if 1 / 2 < r then f + 1 else if even f then f else f + 1)"

text \<open>
  The presentation type \<^verbatim>\<open>.3f\<close>: the value rounded to three decimals, a tie going to
  the even neighbour, with the sign of the value, the digits of the integer part, a point
  and three decimals.
\<close>

definition format_3f :: "rat \<Rightarrow> string" where
  "format_3f x =
     (let n = nat (round_half_even (\<bar>x\<bar> * 1000)) in
      (if x < 0 then ''-'' else []) @ str_nat (n div 1000) @ ''.'' @
        [digit_char (n div 100), digit_char (n div 10), digit_char n])"

text \<open>
  One replacement field with its format specification. Only the specifications that
  \<^verbatim>\<open>cluster.py\<close> uses are modelled: the empty one and \<^verbatim>\<open>.3f\<close>.
\<close>

fun format_value :: "pyval \<Rightarrow> string \<Rightarrow> py_error + string" where
  "format_value (PyStr s) spec =
     (if spec = [] then Inr s
      else if spec = ''.3f'' then Inl ValueError else Inl NotModelled)"
| "format_value (PyInt i) spec =
     (if spec = [] then Inr (str_int i)
      else if spec = ''.3f'' then Inr (format_3f (of_int i)) else Inl NotModelled)"
| "format_value (PyFloat x) spec =
     (if spec = ''.3f'' then Inr (format_3f x) else Inl NotModelled)"

text \<open>
  \<^verbatim>\<open>str.format\<close> with automatically numbered fields \<^verbatim>\<open>{}\<close> and \<^verbatim>\<open>{:spec}\<close>. The second
  argument is the text of the field that is open, if one is. Text outside the fields is
  copied; each field takes the next argument. Doubled braces and named or numbered
  fields are not modelled.
\<close>

fun format_scan :: "string \<Rightarrow> string option \<Rightarrow> pyval list \<Rightarrow> py_error + string" where
  "format_scan [] None args = Inr []"
| "format_scan [] (Some field) args = Inl ValueError"
| "format_scan (c # cs) None args =
     (if c = CHR ''{'' then format_scan cs (Some []) args
      else if c = CHR ''}'' then Inl NotModelled
      else (case format_scan cs None args of Inl err \<Rightarrow> Inl err | Inr out \<Rightarrow> Inr (c # out)))"
| "format_scan (c # cs) (Some field) args =
     (if c = CHR ''}'' then
        (if field = [] \<or> hd field = CHR '':'' then
           (case args of
              [] \<Rightarrow> Inl IndexError
            | a # rest \<Rightarrow>
                (case format_value a (tl field) of
                   Inl err \<Rightarrow> Inl err
                 | Inr txt \<Rightarrow>
                     (case format_scan cs None rest of
                        Inl err \<Rightarrow> Inl err
                      | Inr out \<Rightarrow> Inr (txt @ out))))
         else Inl NotModelled)
      else if c = CHR ''{'' then Inl NotModelled
      else format_scan cs (Some (field @ [c])) args)"

definition format_py :: "string \<Rightarrow> pyval list \<Rightarrow> py_error + string" where
  "format_py template args = format_scan template None args"

text \<open>The format string of line 105; it ends with a line feed.\<close>

definition rttm_template :: string where
  "rttm_template = ''SPEAKER {} 0 {:.3f} {:.3f} <NA> <NA> {} <NA> <NA>'' @ [CHR 0x0A]"

fun rttm_loop :: "entry list \<Rightarrow> string \<Rightarrow> string list \<Rightarrow> py_error + string list" where
  "rttm_loop [] rec_id lines = Inr lines"
| "rttm_loop (entry # entries) rec_id lines =
     (let start = ent_s entry; end = ent_e entry; label = ent_id entry;
          offset = end - start
      in case format_py rttm_template
                [PyStr rec_id, PyFloat start, PyFloat offset, PyInt label] of
           Inl err \<Rightarrow> Inl err
         | Inr line \<Rightarrow> rttm_loop entries rec_id (lines @ [line]))"

definition rttm_lines_from_entries :: "entry list \<Rightarrow> string \<Rightarrow> py_error + string list" where
  "rttm_lines_from_entries entries rec_id = rttm_loop entries rec_id []"

subsection \<open>Corpus aggregator\<close>

text \<open>
  Lines are byte strings, compared as Python compares strings: position by position,
  a proper prefix first. \<^verbatim>\<open>str.strip\<close> removes the white space of ASCII at both ends.
\<close>

definition isspace :: "char \<Rightarrow> bool" where
  "isspace c = (c \<in> set [CHR '' '', CHR 0x09, CHR 0x0A, CHR 0x0B, CHR 0x0C, CHR 0x0D,
                          CHR 0x1C, CHR 0x1D, CHR 0x1E, CHR 0x1F])"

text \<open>\<^verbatim>\<open>line.strip()\<close>.\<close>

definition strip :: "string \<Rightarrow> string" where
  "strip line = rev (dropWhile isspace (rev (dropWhile isspace line)))"

text \<open>
  \<^verbatim>\<open>s.split(' ')\<close>: the pieces between single spaces; two spaces in a row give an empty
  piece, and the empty string gives one empty piece.
\<close>

fun split_space :: "string \<Rightarrow> string list" where
  "split_space [] = [[]]"
| "split_space (c # cs) =
     (if c = CHR '' '' then [] # split_space cs
      else (case split_space cs of
              [] \<Rightarrow> [[c]]
            | w # ws \<Rightarrow> (c # w) # ws))"

text \<open>
  \<^verbatim>\<open>list(zip(*data))\<close>: the columns of the rows, as many as the shortest row has
  fields, and none when there is no row.
\<close>

definition zip_star :: "'a list list \<Rightarrow> 'a list list" where
  "zip_star data =
     (if data = [] then []
      else map (\<lambda>j. map (\<lambda>row. row ! j) data)
             [0..<fold min (map length (tl data)) (length (hd data))])"

text \<open>Indexing a Python list: a negative index counts from the end.\<close>

definition py_index :: "'a list \<Rightarrow> int \<Rightarrow> py_error + 'a" where
  "py_index xs i =
     (let n = int (length xs); j = (if i < 0 then n + i else i)
      in if 0 \<le> j \<and> j < n then Inr (xs ! nat j) else Inl IndexError)"

text \<open>
  The files are a map from names to the lines that iterating over the open file gives;
  opening a name that is not there raises. The lines of all files are collected in the
  order of the files.
\<close>

fun read_all :: "(string \<rightharpoonup> string list) \<Rightarrow> string list \<Rightarrow> py_error + string list" where
  "read_all fs [] = Inr []"
| "read_all fs (rttm_file # rttms) =
     (case fs rttm_file of
        None \<Rightarrow> Inl FileNotFoundError
      | Some ls \<Rightarrow> (case read_all fs rttms of Inl err \<Rightarrow> Inl err | Inr rest \<Rightarrow> Inr (ls @ rest)))"

text \<open>
  \<^verbatim>\<open>sort_and_cat\<close>. \<^verbatim>\<open>columns[column] == rid\<close> is the mask of the rows whose field equals
  \<^verbatim>\<open>rid\<close>, and \<^verbatim>\<open>all_rows[rindexes]\<close> the rows that the mask selects, in their order.
\<close>

definition sort_and_cat :: "(string \<rightharpoonup> string list) \<Rightarrow> string list \<Rightarrow> int \<Rightarrow> py_error + string list" where
  "sort_and_cat fs rttms column =
     (case read_all fs rttms of
        Inl err \<Rightarrow> Inl err
      | Inr all_rows \<Rightarrow>
          (let data = map (\<lambda>line. split_space (strip line)) all_rows;
               columns = zip_star data
           in case py_index columns column of
                Inl err \<Rightarrow> Inl err
              | Inr col \<Rightarrow>
                  (let rec_ids = sort (remdups col)
                   in Inr (concat (map (\<lambda>rid. map fst (filter (\<lambda>rk. snd rk = rid) (zip all_rows col)))
                                    rec_ids)))))"

text \<open>The lines of the files, in the order of the files and then of the lines.\<close>

definition file_lines :: "(string \<rightharpoonup> string list) \<Rightarrow> string list \<Rightarrow> string list" where
  "file_lines fs rttms = concat (map (\<lambda>f. the (fs f)) rttms)"

text \<open>The field of a line that the aggregator groups by.\<close>

definition field_at :: "int \<Rightarrow> string \<Rightarrow> string" where
  "field_at column line = split_space (strip line) ! nat column"

subsection \<open>Arrays of floats\<close>

text \<open>
  An entry of a numpy array of floats: a finite value, one of the two infinities, or
  not-a-number. Finite values are exact rationals; the operations follow the rules of
  the floating-point standard for infinities and not-a-number, without rounding,
  overflow or a negative zero.
\<close>

datatype npfloat = Fin rat | PInf | NInf | NaN

fun np_maximum :: "npfloat \<Rightarrow> npfloat \<Rightarrow> npfloat" where
  "np_maximum NaN b = NaN"
| "np_maximum a NaN = NaN"
| "np_maximum PInf b = PInf"
| "np_maximum a PInf = PInf"
| "np_maximum NInf b = b"
| "np_maximum a NInf = a"
| "np_maximum (Fin a) (Fin b) = Fin (max a b)"

fun np_add :: "npfloat \<Rightarrow> npfloat \<Rightarrow> npfloat" where
  "np_add NaN b = NaN"
| "np_add a NaN = NaN"
| "np_add PInf NInf = NaN"
| "np_add NInf PInf = NaN"
| "np_add PInf b = PInf"
| "np_add a PInf = PInf"
| "np_add NInf b = NInf"
| "np_add a NInf = NInf"
| "np_add (Fin a) (Fin b) = Fin (a + b)"

definition inf_of_sign :: "rat \<Rightarrow> npfloat" where
  "inf_of_sign q = (if 0 < q then PInf else if q < 0 then NInf else NaN)"

fun np_mul :: "npfloat \<Rightarrow> npfloat \<Rightarrow> npfloat" where
  "np_mul NaN b = NaN"
| "np_mul a NaN = NaN"
| "np_mul (Fin a) (Fin b) = Fin (a * b)"
| "np_mul (Fin a) PInf = inf_of_sign a"
| "np_mul (Fin a) NInf = inf_of_sign (- a)"
| "np_mul PInf (Fin b) = inf_of_sign b"
| "np_mul NInf (Fin b) = inf_of_sign (- b)"
| "np_mul PInf PInf = PInf"
| "np_mul NInf NInf = PInf"
| "np_mul PInf NInf = NInf"
| "np_mul NInf PInf = NInf"

text \<open>
  Division of arrays does not raise: a finite value divided by zero is an infinity with
  the sign of the value, and zero divided by zero is not-a-number.
\<close>

fun np_div :: "npfloat \<Rightarrow> npfloat \<Rightarrow> npfloat" where
  "np_div NaN b = NaN"
| "np_div a NaN = NaN"
| "np_div (Fin a) (Fin b) = (if b = 0 then inf_of_sign a else Fin (a / b))"
| "np_div (Fin a) PInf = Fin 0"
| "np_div (Fin a) NInf = Fin 0"
| "np_div PInf (Fin b) = (if b < 0 then NInf else PInf)"
| "np_div NInf (Fin b) = (if b < 0 then PInf else NInf)"
| "np_div PInf b = NaN"
| "np_div NInf b = NaN"

text \<open>The comparison \<^verbatim>\<open><\<close>; it is false when either side is not-a-number.\<close>

fun np_less :: "npfloat \<Rightarrow> npfloat \<Rightarrow> bool" where
  "np_less NaN b = False"
| "np_less a NaN = False"
| "np_less (Fin a) (Fin b) = (a < b)"
| "np_less a NInf = False"
| "np_less PInf b = False"
| "np_less NInf b = True"
| "np_less a PInf = True"

text \<open>A two-dimensional array is the list of its rows.\<close>

type_synonym ndarray = "npfloat list list"

text \<open>\<^verbatim>\<open>matrix.T\<close>, for an array whose rows have the same length.\<close>

definition mat_T :: "ndarray \<Rightarrow> ndarray" where
  "mat_T matrix =
     (if matrix = [] then []
      else map (\<lambda>j. map (\<lambda>row. row ! j) matrix) [0..<length (hd matrix)])"

text \<open>\<^verbatim>\<open>np.maximum\<close> of two arrays of the same shape, entry by entry.\<close>

definition np_maximum_arr :: "ndarray \<Rightarrow> ndarray \<Rightarrow> ndarray" where
  "np_maximum_arr a b = map2 (map2 np_maximum) a b"

text \<open>\<^verbatim>\<open>np.dot\<close> of two arrays: the sums of the products of the rows of the first and the columns of the second.\<close>

definition np_dot :: "ndarray \<Rightarrow> ndarray \<Rightarrow> ndarray" where
  "np_dot a b =
     map (\<lambda>row. map (\<lambda>col. foldl np_add (Fin 0) (map2 np_mul row col)) (mat_T b)) a"

text \<open>
  \<^verbatim>\<open>np.amax(matrix, axis=0)\<close>: the maximum of every column. The maximum has no identity,
  so the reduction of an axis of length zero raises.
\<close>

definition np_amax_axis0 :: "ndarray \<Rightarrow> py_error + npfloat list" where
  "np_amax_axis0 matrix =
     (if matrix = [] then Inl ValueError
      else Inr (map (\<lambda>col. foldl np_maximum (hd col) (tl col)) (mat_T matrix)))"

subsection \<open>Similarity enhancer\<close>

definition sym :: "ndarray \<Rightarrow> ndarray" where
  "sym matrix = np_maximum_arr matrix (mat_T matrix)"

definition diffusion :: "ndarray \<Rightarrow> ndarray" where
  "diffusion matrix = np_dot matrix (mat_T matrix)"

text \<open>
  \<^verbatim>\<open>matrix/maxes\<close> divides every row, entry by entry, by the one-dimensional array of
  the column maxima.
\<close>

definition row_max_norm :: "ndarray \<Rightarrow> py_error + ndarray" where
  "row_max_norm matrix =
     (case np_amax_axis0 matrix of
        Inl err \<Rightarrow> Inl err
      | Inr maxes \<Rightarrow> Inr (map (\<lambda>row. map2 np_div row maxes) matrix))"

definition sim_enhancement :: "ndarray \<Rightarrow> py_error + ndarray" where
  "sim_enhancement matrix = row_max_norm (diffusion (sym matrix))"

text \<open>A square array of dimension \<open>n\<close>.\<close>

definition square :: "nat \<Rightarrow> ndarray \<Rightarrow> bool" where
  "square n matrix = (length matrix = n \<and> list_all (\<lambda>row. length row = n) matrix)"

text \<open>
  The three steps as the specification writes them, entry by entry: the larger of
  \<open>S[i][j]\<close> and \<open>S[j][i]\<close>; the sum over \<open>k\<close> of the products \<open>Y[i][k] * Y[j][k]\<close>; the
  maximum over \<open>k\<close> of \<open>Y'[k][j]\<close>, the maximum of column \<open>j\<close>.
\<close>

definition sym_entry :: "ndarray \<Rightarrow> nat \<Rightarrow> nat \<Rightarrow> npfloat" where
  "sym_entry S i j = np_maximum (S ! i ! j) (S ! j ! i)"

definition diffusion_entry :: "nat \<Rightarrow> ndarray \<Rightarrow> nat \<Rightarrow> nat \<Rightarrow> npfloat" where
  "diffusion_entry n S i j =
     foldl np_add (Fin 0) (map (\<lambda>k. np_mul (sym_entry S i k) (sym_entry S j k)) [0..<n])"

definition column_max :: "nat \<Rightarrow> ndarray \<Rightarrow> nat \<Rightarrow> npfloat" where
  "column_max n S j =
     foldl np_maximum (diffusion_entry n S 0 j) (map (\<lambda>k. diffusion_entry n S k j) [1..<n])"

text \<open>An entry that is not negative: not-a-number is not.\<close>

fun nonneg :: "npfloat \<Rightarrow> bool" where
  "nonneg (Fin q) = (0 \<le> q)"
| "nonneg PInf = True"
| "nonneg NInf = False"
| "nonneg NaN = False"

subsection \<open>Rounding of the floating-point format\<close>

text \<open>
  The arithmetic of numpy rounds every result to the float format, overflows to an
  infinity and underflows to zero. The rounding is a parameter \<open>fl\<close> of the following
  operations, from exact values to entries: \<open>np_mul_fl\<close>, \<open>np_add_fl\<close> and \<open>np_div_fl\<close> are
  \<open>np_mul\<close>, \<open>np_add\<close> and \<open>np_div\<close> with every finite result rounded. With \<open>Fin\<close> for \<open>fl\<close>
  they are the exact operations.
\<close>

fun np_mul_fl :: "(rat \<Rightarrow> npfloat) \<Rightarrow> npfloat \<Rightarrow> npfloat \<Rightarrow> npfloat" where
  "np_mul_fl fl NaN b = NaN"
| "np_mul_fl fl a NaN = NaN"
| "np_mul_fl fl (Fin a) (Fin b) = fl (a * b)"
| "np_mul_fl fl (Fin a) PInf = inf_of_sign a"
| "np_mul_fl fl (Fin a) NInf = inf_of_sign (- a)"
| "np_mul_fl fl PInf (Fin b) = inf_of_sign b"
| "np_mul_fl fl NInf (Fin b) = inf_of_sign (- b)"
| "np_mul_fl fl PInf PInf = PInf"
| "np_mul_fl fl NInf NInf = PInf"
| "np_mul_fl fl PInf NInf = NInf"
| "np_mul_fl fl NInf PInf = NInf"

fun np_add_fl :: "(rat \<Rightarrow> npfloat) \<Rightarrow> npfloat \<Rightarrow> npfloat \<Rightarrow> npfloat" where
  "np_add_fl fl NaN b = NaN"
| "np_add_fl fl a NaN = NaN"
| "np_add_fl fl PInf NInf = NaN"
| "np_add_fl fl NInf PInf = NaN"
| "np_add_fl fl PInf b = PInf"
| "np_add_fl fl a PInf = PInf"
| "np_add_fl fl NInf b = NInf"
| "np_add_fl fl a NInf = NInf"
| "np_add_fl fl (Fin a) (Fin b) = fl (a + b)"

fun np_div_fl :: "(rat \<Rightarrow> npfloat) \<Rightarrow> npfloat \<Rightarrow> npfloat \<Rightarrow> npfloat" where
  "np_div_fl fl NaN b = NaN"
| "np_div_fl fl a NaN = NaN"
| "np_div_fl fl (Fin a) (Fin b) = (if b = 0 then inf_of_sign a else fl (a / b))"
| "np_div_fl fl (Fin a) PInf = Fin 0"
| "np_div_fl fl (Fin a) NInf = Fin 0"
| "np_div_fl fl PInf (Fin b) = (if b < 0 then NInf else PInf)"
| "np_div_fl fl NInf (Fin b) = (if b < 0 then PInf else NInf)"
| "np_div_fl fl PInf b = NaN"
| "np_div_fl fl NInf b = NaN"

text \<open>
  The enhancer with rounded arithmetic: \<^verbatim>\<open>np.maximum\<close> and \<^verbatim>\<open>np.amax\<close> select an entry and
  do not round; the products and sums of \<^verbatim>\<open>np.dot\<close> and the quotients do.
\<close>

definition np_dot_fl :: "(rat \<Rightarrow> npfloat) \<Rightarrow> ndarray \<Rightarrow> ndarray \<Rightarrow> ndarray" where
  "np_dot_fl fl a b =
     map (\<lambda>row. map (\<lambda>col. foldl (np_add_fl fl) (Fin 0) (map2 (np_mul_fl fl) row col))
                   (mat_T b)) a"

definition diffusion_fl :: "(rat \<Rightarrow> npfloat) \<Rightarrow> ndarray \<Rightarrow> ndarray" where
  "diffusion_fl fl matrix = np_dot_fl fl matrix (mat_T matrix)"

definition row_max_norm_fl :: "(rat \<Rightarrow> npfloat) \<Rightarrow> ndarray \<Rightarrow> py_error + ndarray" where
  "row_max_norm_fl fl matrix =
     (case np_amax_axis0 matrix of
        Inl err \<Rightarrow> Inl err
      | Inr maxes \<Rightarrow> Inr (map (\<lambda>row. map2 (np_div_fl fl) row maxes) matrix))"

definition sim_enhancement_fl :: "(rat \<Rightarrow> npfloat) \<Rightarrow> ndarray \<Rightarrow> py_error + ndarray" where
  "sim_enhancement_fl fl matrix = row_max_norm_fl fl (diffusion_fl fl (sym matrix))"

text \<open>
  The rounding of the 64-bit binary format, to the nearest value that the format has,
  a tie going to the even significand. With \<open>e\<close> the exponent of the value, not below
  the smallest exponent \<open>-1022\<close>, the values of the format are the multiples of
  \<open>2 ^ (e - 52)\<close>; a value that rounds to \<open>2 ^ 1024\<close> or more becomes an infinity.
\<close>

definition pow2 :: "int \<Rightarrow> rat" where
  "pow2 k = (if 0 \<le> k then 2 ^ nat k else 1 / 2 ^ nat (- k))"

text \<open>The largest \<open>k\<close> with \<open>2 ^ k \<le> a\<close>, for a positive \<open>a\<close>.\<close>

definition ilog2 :: "rat \<Rightarrow> int" where
  "ilog2 a =
     (let k = bitlen (fst (quotient_of a)) - bitlen (snd (quotient_of a))
      in if pow2 k \<le> a then k else k - 1)"

definition binary64 :: "rat \<Rightarrow> npfloat" where
  "binary64 q =
     (if q = 0 then Fin 0
      else let e = max (ilog2 \<bar>q\<bar>) (- 1022);
               u = pow2 (e - 52);
               m = round_half_even (\<bar>q\<bar> / u)
           in if 1023 < e \<or> (e = 1023 \<and> 2 ^ 53 \<le> m) then inf_of_sign q
              else Fin (sgn q * (of_int m * u)))"

subsection \<open>Cluster estimators\<close>

text \<open>
  The estimators call functions of scipy, numpy and scikit-learn that are not part of
  \<^verbatim>\<open>cluster.py\<close>. They are parameters of the model:
  \<^item> \<^verbatim>\<open>laplacian(S, normed=True)\<close>, which returns its result together with the contents
    that it leaves in the array that it is handed, so that nothing is assumed about
    what it writes;
  \<^item> \<^verbatim>\<open>np.linalg.eig\<close>, which raises or returns the eigenvalues and the array of
    eigenvectors, complex numbers given by their real and imaginary parts;
  \<^item> the labels that \<^verbatim>\<open>KMeans(n_clusters=k).fit_predict\<close> computes for \<open>k\<close> of at least 1;
  \<^item> the result of \<^verbatim>\<open>AgglomerativeClustering(...).fit_predict\<close> for a distance threshold
    and the contents of an array: labels or an exception.
\<close>

type_synonym npcomplex = "npfloat \<times> npfloat"

record library =
  laplacian :: "ndarray \<Rightarrow> ndarray \<times> ndarray"
  eig :: "ndarray \<Rightarrow> py_error + (npcomplex list \<times> npcomplex list list)"
  kmeans_labels :: "nat \<Rightarrow> ndarray \<Rightarrow> int list"
  ahc_labels :: "rat \<Rightarrow> ndarray \<Rightarrow> py_error + int list"

definition np_real :: "npcomplex \<Rightarrow> npfloat" where
  "np_real z = fst z"

text \<open>
  Arrays live in a store: a reference is a position in the list of arrays, and a new
  array is added at the end.
\<close>

type_synonym heap = "ndarray list"

definition new_array :: "heap \<Rightarrow> ndarray \<Rightarrow> nat \<times> heap" where
  "new_array h a = (length h, h @ [a])"

text \<open>
  An operand of a function of numpy: an array of the store, or \<^verbatim>\<open>a.T\<close>, the transposed
  view of an array of the store, which shares the entries of that array.
\<close>

datatype operand = Whole nat | Transposed nat

fun read_operand :: "heap \<Rightarrow> operand \<Rightarrow> ndarray" where
  "read_operand h (Whole a) = h ! a"
| "read_operand h (Transposed a) = mat_T (h ! a)"

text \<open>
  The functions of numpy that the enhancer calls read their operands and return a new
  array: \<^verbatim>\<open>np.maximum(a, b)\<close>, \<^verbatim>\<open>np.dot(a, b)\<close>, \<^verbatim>\<open>np.amax(a, axis=0)\<close>, whose result has
  one dimension and is stored as its single row, and the division \<^verbatim>\<open>a/maxes\<close>.
\<close>

definition np_maximum_ref :: "heap \<Rightarrow> operand \<Rightarrow> operand \<Rightarrow> nat \<times> heap" where
  "np_maximum_ref h a b = new_array h (np_maximum_arr (read_operand h a) (read_operand h b))"

definition np_dot_ref :: "heap \<Rightarrow> operand \<Rightarrow> operand \<Rightarrow> nat \<times> heap" where
  "np_dot_ref h a b = new_array h (np_dot (read_operand h a) (read_operand h b))"

definition np_amax_axis0_ref :: "heap \<Rightarrow> nat \<Rightarrow> py_error + nat \<times> heap" where
  "np_amax_axis0_ref h a =
     (case np_amax_axis0 (h ! a) of
        Inl err \<Rightarrow> Inl err
      | Inr maxes \<Rightarrow> Inr (new_array h [maxes]))"

definition np_divide_ref :: "heap \<Rightarrow> nat \<Rightarrow> nat \<Rightarrow> nat \<times> heap" where
  "np_divide_ref h a maxes =
     new_array h (map (\<lambda>row. map2 np_div row (hd (h ! maxes))) (h ! a))"

text \<open>
  The functions of the enhancer on references: \<^verbatim>\<open>sym\<close>, \<^verbatim>\<open>diffusion\<close>, \<^verbatim>\<open>row_max_norm\<close>
  and \<^verbatim>\<open>sim_enhancement\<close> as they are written, each returning the reference of its
  result and the store.
\<close>

definition sym_ref :: "heap \<Rightarrow> nat \<Rightarrow> nat \<times> heap" where
  "sym_ref h matrix = np_maximum_ref h (Whole matrix) (Transposed matrix)"

definition diffusion_ref :: "heap \<Rightarrow> nat \<Rightarrow> nat \<times> heap" where
  "diffusion_ref h matrix = np_dot_ref h (Whole matrix) (Transposed matrix)"

definition row_max_norm_ref :: "heap \<Rightarrow> nat \<Rightarrow> (py_error + nat) \<times> heap" where
  "row_max_norm_ref h matrix =
     (case np_amax_axis0_ref h matrix of
        Inl err \<Rightarrow> (Inl err, h)
      | Inr (maxes, h1) \<Rightarrow>
          (let (result, h2) = np_divide_ref h1 matrix maxes in (Inr result, h2)))"

definition sim_enhancement_ref :: "heap \<Rightarrow> nat \<Rightarrow> (py_error + nat) \<times> heap" where
  "sim_enhancement_ref h matrix =
     (let (y, h1) = sym_ref h matrix;
          (y', h2) = diffusion_ref h1 y
      in row_max_norm_ref h2 y')"

text \<open>\<^verbatim>\<open>np.fill_diagonal(a, val)\<close> writes \<open>val\<close> to the entries \<open>a[i][i]\<close> that exist.\<close>

definition fill_diagonal :: "ndarray \<Rightarrow> npfloat \<Rightarrow> ndarray" where
  "fill_diagonal a val = map2 (\<lambda>i row. row[i := val]) [0..<length a] a"

text \<open>
  \<^verbatim>\<open>a.T[kmask].T\<close>: the columns of \<open>a\<close> whose entry of the mask is true, in their order. A
  mask whose length is not the number of columns raises.
\<close>

definition select_columns :: "bool list \<Rightarrow> ndarray \<Rightarrow> py_error + ndarray" where
  "select_columns kmask a =
     (if list_all (\<lambda>row. length row = length kmask) a
      then Inr (map (\<lambda>row. map snd (filter fst (zip kmask row))) a)
      else Inl IndexError)"

text \<open>\<^verbatim>\<open>P.shape[1]\<close> of an array with at least one row.\<close>

definition shape1 :: "ndarray \<Rightarrow> nat" where
  "shape1 a = (case a of [] \<Rightarrow> 0 | row # _ \<Rightarrow> length row)"

text \<open>
  Modelled from the spec: K-means of scikit-learn is not part of \<^verbatim>\<open>cluster.py\<close>; the
  specification says that K-means which receives \<open>k = 0\<close> fails and reports the failure
  upward (scikit-learn raises a \<^verbatim>\<open>ValueError\<close> in \<^verbatim>\<open>fit\<close>). For other \<open>k\<close> the labels are
  the library's.
\<close>

definition KMeans_fit_predict :: "library \<Rightarrow> nat \<Rightarrow> ndarray \<Rightarrow> py_error + int list" where
  "KMeans_fit_predict lib n_clusters P =
     (if n_clusters = 0 then Inl ValueError else Inr (kmeans_labels lib n_clusters P))"

text \<open>
  \<^verbatim>\<open>spectral_clustering(S, beta)\<close>, with the store and the reference \<open>S\<close> of the caller's
  array. \<^verbatim>\<open>S = sim_enhancement(S)\<close> binds the local name to the reference that the
  enhancer returns; \<^verbatim>\<open>np.fill_diagonal\<close> then writes in place to the array of that
  reference, and \<^verbatim>\<open>laplacian\<close> is handed the same array. The result comes with the store
  at the end. An exception leaves the function at once.
\<close>

definition spectral_clustering ::
  "library \<Rightarrow> heap \<Rightarrow> nat \<Rightarrow> rat \<Rightarrow> (py_error + int list) \<times> heap" where
  "spectral_clustering lib h S beta =
     (case sim_enhancement_ref h S of
        (Inl err, h1) \<Rightarrow> (Inl err, h1)
      | (Inr S', h1) \<Rightarrow>
          (let h2 = h1[S' := fill_diagonal (h1 ! S') (Fin 0)];
               (L_norm, after) = laplacian lib (h2 ! S');
               h3 = h2[S' := after]
           in case eig lib L_norm of
                Inl err \<Rightarrow> (Inl err, h3)
              | Inr (eigvals, eigvecs) \<Rightarrow>
                  (let kmask = map (\<lambda>v. np_less (np_real v) (Fin beta)) eigvals
                   in case select_columns kmask (map (map np_real) eigvecs) of
                        Inl err \<Rightarrow> (Inl err, h3)
                      | Inr P \<Rightarrow> (KMeans_fit_predict lib (shape1 P) P, h3))))"

text \<open>
  Modelled from the spec: \<^verbatim>\<open>fit_predict\<close> of the agglomerative clustering of scikit-learn
  is not part of \<^verbatim>\<open>cluster.py\<close>; the specification says that the estimator consumes the
  similarity matrix directly, that it has no side effect, and that the matrix is never
  mutated in place by an estimator. The call reads the array of the reference and
  leaves the store as it is; the labels or the exception are the library's.
\<close>

definition AgglomerativeClustering_fit_predict ::
  "library \<Rightarrow> rat \<Rightarrow> heap \<Rightarrow> nat \<Rightarrow> (py_error + int list) \<times> heap" where
  "AgglomerativeClustering_fit_predict lib distance_threshold h X =
     (ahc_labels lib distance_threshold (h ! X), h)"

text \<open>\<^verbatim>\<open>agg_clustering(S, thresh)\<close>: the array of the caller goes to scikit-learn as it is.\<close>

definition agg_clustering ::
  "library \<Rightarrow> heap \<Rightarrow> nat \<Rightarrow> rat \<Rightarrow> (py_error + int list) \<times> heap" where
  "agg_clustering lib h S thresh = AgglomerativeClustering_fit_predict lib thresh h S"

text \<open>
  A library for a recording with one segment, used to run the spectral estimator on
  the array with the single entry 1: the Laplacian of the array with the single entry 0
  is that array, its eigenvalue is 0 with the eigenvector 1, and one segment gets the
  label 0. The agglomerative clustering needs two samples and raises.
\<close>

definition one_segment_library :: library where
  "one_segment_library =
     \<lparr>laplacian = (\<lambda>M. (M, M)),
      eig = (\<lambda>M. Inr ([(Fin 0, Fin 0)], [[(Fin 1, Fin 0)]])),
      kmeans_labels = (\<lambda>k P. map (\<lambda>row. 0) P),
      ahc_labels = (\<lambda>thresh M. Inl ValueError)\<rparr>"

text \<open>
  A library for a recording with two segments that have nothing in common, used to run
  both estimators on the identity array: the enhanced array with zero diagonal is the
  zero array, its Laplacian is the zero array, with the eigenvalues 0, 0 and the unit
  vectors as eigenvectors; K-means with two clusters separates the two segments, and
  the agglomerative clustering, for which the two segments are at distance 0, puts them
  in one cluster.
\<close>

definition two_segment_library :: library where
  "two_segment_library =
     \<lparr>laplacian = (\<lambda>M. (M, M)),
      eig = (\<lambda>M. Inr ([(Fin 0, Fin 0), (Fin 0, Fin 0)],
                       [[(Fin 1, Fin 0), (Fin 0, Fin 0)], [(Fin 0, Fin 0), (Fin 1, Fin 0)]])),
      kmeans_labels = (\<lambda>k P. [0, 1]),
      ahc_labels = (\<lambda>thresh M. Inr [0, 0])\<rparr>"

section \<open>Facts about the model\<close>

subsection \<open>Segment merger\<close>

lemma assign_step_nonempty: "assign_step entries pe \<noteq> []"
  by (cases pe) (auto simp: assign_step_def Let_def)

lemma assign_segments_snoc:
  assumes "length ls = length evs"
  shows "assign_segments (ls @ [l]) (evs @ [ev]) =
         assign_step (assign_segments ls evs) (l, ev)"
  using assms by (simp add: assign_segments_def)

lemma assign_segments_nonempty:
  assumes "ls \<noteq> []" and "evs \<noteq> []"
  shows "assign_segments ls evs \<noteq> []"
proof -
  from assms have "zip ls evs \<noteq> []"
    by (cases ls; cases evs) simp_all
  then obtain ps p where "zip ls evs = ps @ [p]"
    by (metis rev_exhaust)
  then show ?thesis
    by (simp add: assign_segments_def assign_step_nonempty)
qed

lemma assign_step_hd:
  assumes "entries \<noteq> []"
  shows "ent_s (hd (assign_step entries pe)) = ent_s (hd entries)"
proof -
  obtain x xs where ex: "entries = x # xs"
    using assms by (cases entries) auto
  show ?thesis
  proof (cases xs)
    case Nil
    with ex show ?thesis
      by (cases pe) (simp add: assign_step_def Let_def)
  next
    case (Cons y ys)
    with ex show ?thesis
      by (cases pe) (simp add: assign_step_def Let_def)
  qed
qed

lemma assign_step_last: "ent_e (last (assign_step entries (l, (st, en)))) = en"
  by (simp add: assign_step_def Let_def)

lemma foldl_assign_step_nonempty:
  "entries \<noteq> [] \<Longrightarrow> foldl assign_step entries ps \<noteq> []"
  by (induction ps arbitrary: entries) (simp_all add: assign_step_nonempty)

lemma foldl_assign_step_hd:
  "entries \<noteq> [] \<Longrightarrow> ent_s (hd (foldl assign_step entries ps)) = ent_s (hd entries)"
  by (induction ps arbitrary: entries) (simp_all add: assign_step_nonempty assign_step_hd)

lemma successively_nth:
  "successively P xs \<Longrightarrow> Suc i < length xs \<Longrightarrow> P (xs ! i) (xs ! Suc i)"
proof (induction P xs arbitrary: i rule: successively.induct)
  case (3 P x y xs)
  then show ?case by (cases i) simp_all
qed simp_all

lemma successively_snoc:
  "successively P (xs @ [x]) \<longleftrightarrow> successively P xs \<and> (xs = [] \<or> P (last xs) x)"
  by (auto simp: successively_append_iff)

lemma assign_step_apart:
  assumes "successively apart entries"
  shows "successively apart (assign_step entries pe)"
proof (cases "entries = []")
  case True
  then show ?thesis
    by (cases pe) (simp add: assign_step_def)
next
  case False
  obtain plabel start en where pe: "pe = (plabel, (start, en))"
    by (cases pe) auto
  define pre where "pre = butlast entries"
  define l where "l = last entries"
  have ent: "entries = pre @ [l]"
    using False by (simp add: pre_def l_def)
  have pre: "successively apart pre" and lnk: "pre = [] \<or> apart (last pre) l"
    using assms unfolding ent successively_snoc by simp_all
  have upd: "pre = [] \<or> apart (last pre) (l\<lparr>ent_e := v\<rparr>)" for v
    using lnk by (auto simp: apart_def)
  consider (gap) "ent_e l < start"
    | (same) "\<not> ent_e l < start" "ent_id l = plabel"
    | (fuzzy) "\<not> ent_e l < start" "ent_id l \<noteq> plabel"
    by blast
  then show ?thesis
  proof cases
    case gap
    then have "assign_step entries pe = entries @ [\<lparr>ent_s = start, ent_e = en, ent_id = plabel\<rparr>]"
      using False by (simp add: assign_step_def pe l_def)
    moreover have "apart (last entries) \<lparr>ent_s = start, ent_e = en, ent_id = plabel\<rparr>"
      using gap by (simp add: apart_def l_def)
    ultimately show ?thesis
      using assms by (simp add: successively_snoc)
  next
    case same
    then have "assign_step entries pe = pre @ [l\<lparr>ent_e := en\<rparr>]"
      by (simp add: assign_step_def pe ent)
    with pre upd show ?thesis
      by (simp add: successively_snoc)
  next
    case fuzzy
    define m where "m = (ent_e l + start) / 2"
    from fuzzy have "assign_step entries pe =
        (pre @ [l\<lparr>ent_e := m\<rparr>]) @ [\<lparr>ent_s = m, ent_e = en, ent_id = plabel\<rparr>]"
      by (simp add: assign_step_def pe ent Let_def m_def)
    moreover have "apart (l\<lparr>ent_e := m\<rparr>) \<lparr>ent_s = m, ent_e = en, ent_id = plabel\<rparr>"
      using fuzzy by (simp add: apart_def)
    ultimately show ?thesis
      using pre upd [of m] by (simp add: successively_snoc del: append_assoc)
  qed
qed

lemma foldl_assign_step_apart:
  "successively apart entries \<Longrightarrow> successively apart (foldl assign_step entries ps)"
  by (induction ps arbitrary: entries) (simp_all add: assign_step_apart)

lemma assign_segments_apart: "successively apart (assign_segments ls evs)"
  by (simp add: assign_segments_def foldl_assign_step_apart)

subsection \<open>RTTM serializer\<close>

lemma format_rttm_template:
  "format_py rttm_template [PyStr r, PyFloat a, PyFloat b, PyInt l] =
     Inr (''SPEAKER '' @ r @ '' 0 '' @ format_3f a @ '' '' @ format_3f b @
          '' <NA> <NA> '' @ str_int l @ '' <NA> <NA>'' @ [CHR 0x0A])"
  by (simp add: format_py_def rttm_template_def)

lemma rttm_loop_map:
  "rttm_loop entries r lines =
     Inr (lines @ map (\<lambda>en. ''SPEAKER '' @ r @ '' 0 '' @ format_3f (ent_s en) @ '' '' @
            format_3f (ent_e en - ent_s en) @ '' <NA> <NA> '' @ str_int (ent_id en) @
            '' <NA> <NA>'' @ [CHR 0x0A]) entries)"
  by (induction entries arbitrary: lines) (simp_all add: format_rttm_template Let_def)

subsection \<open>Corpus aggregator\<close>

lemma read_all_concat:
  "(\<forall>f\<in>set rttms. fs f \<noteq> None) \<Longrightarrow>
     read_all fs rttms = Inr (concat (map (\<lambda>f. the (fs f)) rttms))"
  by (induction rttms) auto

lemma fold_min_greater:
  "(\<forall>x\<in>set xs. (c::nat) < x) \<Longrightarrow> c < a \<Longrightarrow> c < fold min xs a"
  by (induction xs arbitrary: a) simp_all

lemma zip_star_nth:
  assumes "data \<noteq> []" and "\<forall>row\<in>set data. c < length row"
  shows "c < length (zip_star data) \<and> zip_star data ! c = map (\<lambda>row. row ! c) data"
proof -
  have "c < fold min (map length (tl data)) (length (hd data))"
    using assms by (intro fold_min_greater) (auto dest: list.set_sel(2))
  then show ?thesis
    using assms(1) by (simp add: zip_star_def)
qed

lemma filter_zip_map:
  "map fst (filter (\<lambda>rk. snd rk = rid) (zip xs (map f xs))) = filter (\<lambda>x. f x = rid) xs"
  by (induction xs) simp_all

lemma group_filter:
  "distinct ks \<Longrightarrow>
   filter (\<lambda>x. f x = k) (concat (map (\<lambda>rid. filter (\<lambda>x. f x = rid) xs) ks)) =
     (if k \<in> set ks then filter (\<lambda>x. f x = k) xs else [])"
proof (induction ks)
  case Nil
  then show ?case by simp
next
  case (Cons a ks)
  have "filter (\<lambda>x. f x = k) (filter (\<lambda>x. f x = a) xs) =
        (if k = a then filter (\<lambda>x. f x = k) xs else [])"
    by (induction xs) auto
  with Cons show ?case by auto
qed

lemma group_sorted:
  "sorted ks \<Longrightarrow> sorted (map f (concat (map (\<lambda>rid. filter (\<lambda>x. f x = rid) xs) ks)))"
proof (induction ks)
  case Nil
  then show ?case by simp
next
  case (Cons a ks)
  have "sorted (map f (filter (\<lambda>x. f x = a) xs))"
    by (induction xs) auto
  with Cons show ?case
    by (auto simp: sorted_append)
qed

lemma group_mset:
  "distinct ks \<Longrightarrow>
   mset (concat (map (\<lambda>rid. filter (\<lambda>x. f x = rid) xs) ks)) =
     mset (filter (\<lambda>x. f x \<in> set ks) xs)"
proof (induction ks)
  case Nil
  then show ?case by simp
next
  case (Cons a ks)
  have "mset (filter (\<lambda>x. f x = a) xs) + mset (filter (\<lambda>x. f x \<in> set ks) xs) =
        mset (filter (\<lambda>x. f x = a \<or> f x \<in> set ks) xs)"
    using Cons.prems by (induction xs) auto
  with Cons show ?case by simp
qed

lemma group_is_sort_key:
  fixes f :: "'a \<Rightarrow> 'k::linorder"
  shows "concat (map (\<lambda>rid. filter (\<lambda>x. f x = rid) xs) (sort (remdups (map f xs)))) =
         sort_key f xs"
proof -
  let ?ks = "sort (remdups (map f xs))"
  let ?ys = "concat (map (\<lambda>rid. filter (\<lambda>x. f x = rid) xs) ?ks)"
  have d: "distinct ?ks" and s: "sorted ?ks" and st: "set ?ks = f ` set xs"
    by simp_all
  have m: "mset ?ys = mset xs"
    using group_mset [OF d, of f xs] by (simp add: st)
  have fl: "filter (\<lambda>x. f k = f x) ?ys = filter (\<lambda>x. f k = f x) xs" if "k \<in> set ?ys" for k
  proof -
    have "k \<in> set xs" using that m by (metis set_mset_mset)
    then have "f k \<in> set ?ks" by (simp add: st)
    then show ?thesis
      using group_filter [OF d, of f "f k" xs] by (simp add: eq_commute [of "f k"])
  qed
  show ?thesis
    using properties_for_sort_key [OF m fl group_sorted [OF s]] by simp
qed

lemma sort_and_cat_sort_key:
  assumes "\<forall>f\<in>set rttms. fs f \<noteq> None"
    and "file_lines fs rttms \<noteq> []"
    and "0 \<le> column"
    and "\<forall>line\<in>set (file_lines fs rttms). nat column < length (split_space (strip line))"
  shows "sort_and_cat fs rttms column = Inr (sort_key (field_at column) (file_lines fs rttms))"
proof -
  let ?rows = "file_lines fs rttms"
  let ?data = "map (\<lambda>line. split_space (strip line)) ?rows"
  have rd: "read_all fs rttms = Inr ?rows"
    using read_all_concat [OF assms(1)] by (simp add: file_lines_def)
  have "?data \<noteq> []" and "\<forall>row\<in>set ?data. nat column < length row"
    using assms(2,4) by auto
  from zip_star_nth [OF this]
  have len: "nat column < length (zip_star ?data)"
    and col: "zip_star ?data ! nat column = map (field_at column) ?rows"
    by (simp_all add: field_at_def)
  have ix: "py_index (zip_star ?data) column = Inr (map (field_at column) ?rows)"
    using assms(3) len col by (simp add: py_index_def Let_def)
  show ?thesis
    by (simp add: sort_and_cat_def rd ix Let_def filter_zip_map group_is_sort_key)
qed

subsection \<open>Similarity enhancer\<close>

lemma square_row: "square n M \<Longrightarrow> i < n \<Longrightarrow> length (M ! i) = n"
  by (simp add: square_def list_all_length)

lemma square_hd: "square n M \<Longrightarrow> 0 < n \<Longrightarrow> M \<noteq> [] \<and> length (hd M) = n"
  by (cases M) (auto simp: square_def)

lemma squareI: "length M = n \<Longrightarrow> (\<And>i. i < n \<Longrightarrow> length (M ! i) = n) \<Longrightarrow> square n M"
  by (simp add: square_def list_all_length)

lemma mat_T_row:
  assumes "square n M" and "j < n"
  shows "mat_T M ! j = map (\<lambda>row. row ! j) M"
  using square_hd [OF assms(1)] assms(2) by (simp add: mat_T_def)

lemma mat_T_square:
  assumes "square n M"
  shows "square n (mat_T M)"
proof (cases "n = 0")
  case True
  with assms show ?thesis by (simp add: square_def mat_T_def)
next
  case False
  with square_hd [OF assms] have "M \<noteq> []" "length (hd M) = n" by simp_all
  moreover have "length M = n" using assms by (simp add: square_def)
  ultimately show ?thesis
    by (intro squareI) (simp_all add: mat_T_def)
qed

lemma mat_T_nth:
  assumes "square n M" and "i < n" and "j < n"
  shows "mat_T M ! j ! i = M ! i ! j"
proof -
  have "length M = n" using assms(1) by (simp add: square_def)
  with assms show ?thesis by (simp add: mat_T_row)
qed

lemma mat_T_mat_T:
  assumes "square n M"
  shows "mat_T (mat_T M) = M"
proof (rule nth_equalityI)
  have l: "length M = n" using assms by (simp add: square_def)
  show len: "length (mat_T (mat_T M)) = length M"
    using mat_T_square [OF mat_T_square [OF assms]] l by (simp add: square_def)
  fix i assume "i < length (mat_T (mat_T M))"
  with len l have i: "i < n" by simp
  show "mat_T (mat_T M) ! i = M ! i"
  proof (rule nth_equalityI)
    show "length (mat_T (mat_T M) ! i) = length (M ! i)"
      using square_row [OF mat_T_square [OF mat_T_square [OF assms]] i]
        square_row [OF assms i] by simp
    fix j assume "j < length (mat_T (mat_T M) ! i)"
    then have j: "j < n"
      using square_row [OF mat_T_square [OF mat_T_square [OF assms]] i] by simp
    show "mat_T (mat_T M) ! i ! j = M ! i ! j"
      using mat_T_nth [OF mat_T_square [OF assms] j i] mat_T_nth [OF assms i j] by simp
  qed
qed

lemma map2_nth:
  "i < length xs \<Longrightarrow> i < length ys \<Longrightarrow> map2 f xs ys ! i = f (xs ! i) (ys ! i)"
  by simp

lemma sym_square:
  assumes "square n S"
  shows "square n (sym S)"
proof (rule squareI)
  have l: "length S = n" "length (mat_T S) = n"
    using assms mat_T_square [OF assms] by (simp_all add: square_def)
  then show "length (sym S) = n"
    by (simp add: sym_def np_maximum_arr_def)
  fix i assume i: "i < n"
  with l show "length (sym S ! i) = n"
    using square_row [OF assms i] square_row [OF mat_T_square [OF assms] i]
    by (simp add: sym_def np_maximum_arr_def)
qed

lemma sym_nth:
  assumes "square n S" and "i < n" and "j < n"
  shows "sym S ! i ! j = sym_entry S i j"
proof -
  have l: "length S = n" "length (mat_T S) = n"
    using assms(1) mat_T_square [OF assms(1)] by (simp_all add: square_def)
  have r: "length (S ! i) = n" "length (mat_T S ! i) = n"
    using square_row [OF assms(1,2)] square_row [OF mat_T_square [OF assms(1)] assms(2)]
    by simp_all
  show ?thesis
    using l r assms(2,3) mat_T_nth [OF assms(1) assms(3) assms(2)]
    by (simp add: sym_def np_maximum_arr_def sym_entry_def)
qed

lemma map2_upt:
  assumes "length xs = n" and "length ys = n"
  shows "map2 f xs ys = map (\<lambda>k. f (xs ! k) (ys ! k)) [0..<n]"
  using assms by (intro nth_equalityI) simp_all

lemma diffusion_square:
  assumes "square n M"
  shows "square n (diffusion M)"
proof (rule squareI)
  have l: "length M = n" using assms by (simp add: square_def)
  then show "length (diffusion M) = n"
    by (simp add: diffusion_def np_dot_def)
  fix i assume "i < n"
  with l show "length (diffusion M ! i) = n"
    using assms by (simp add: diffusion_def np_dot_def mat_T_mat_T [OF mat_T_square [OF assms]]
        mat_T_mat_T [OF assms] square_def)
qed

lemma diffusion_nth:
  assumes "square n M" and "i < n" and "j < n"
  shows "diffusion M ! i ! j =
         foldl np_add (Fin 0) (map (\<lambda>k. np_mul (M ! i ! k) (M ! j ! k)) [0..<n])"
proof -
  have l: "length M = n" using assms(1) by (simp add: square_def)
  have "diffusion M ! i ! j = foldl np_add (Fin 0) (map2 np_mul (M ! i) (M ! j))"
    using l assms(2,3) by (simp add: diffusion_def np_dot_def mat_T_mat_T [OF assms(1)])
  also have "map2 np_mul (M ! i) (M ! j) = map (\<lambda>k. np_mul (M ! i ! k) (M ! j ! k)) [0..<n]"
    using square_row [OF assms(1,2)] square_row [OF assms(1,3)] by (rule map2_upt)
  finally show ?thesis .
qed

lemma diffusion_sym_nth:
  assumes "square n S" and "i < n" and "j < n"
  shows "diffusion (sym S) ! i ! j = diffusion_entry n S i j"
proof -
  have eq: "map (\<lambda>k. np_mul (sym S ! i ! k) (sym S ! j ! k)) [0..<n] =
        map (\<lambda>k. np_mul (sym_entry S i k) (sym_entry S j k)) [0..<n]"
    using assms by (simp add: sym_nth)
  show ?thesis
    by (simp only: diffusion_nth [OF sym_square [OF assms(1)] assms(2,3)] eq
        diffusion_entry_def)
qed

lemma tl_upt:
  assumes "length M = n"
  shows "tl M = map (\<lambda>k. M ! k) [1..<n]"
proof (rule nth_equalityI)
  show "length (tl M) = length (map (\<lambda>k. M ! k) [1..<n])"
    using assms by simp
  fix i assume "i < length (tl M)"
  then show "tl M ! i = map (\<lambda>k. M ! k) [1..<n] ! i"
    using assms by (simp add: nth_tl)
qed

lemma np_amax_axis0_nth:
  assumes "square n M" and "0 < n"
  shows "\<exists>maxes. np_amax_axis0 M = Inr maxes \<and> length maxes = n \<and>
           (\<forall>j<n. maxes ! j = foldl np_maximum (M ! 0 ! j) (map (\<lambda>k. M ! k ! j) [1..<n]))"
proof -
  have ne: "M \<noteq> []" and l: "length M = n"
    using square_hd [OF assms] assms(1) by (simp_all add: square_def)
  let ?maxes = "map (\<lambda>col. foldl np_maximum (hd col) (tl col)) (mat_T M)"
  have lt: "length (mat_T M) = n"
    using mat_T_square [OF assms(1)] by (simp add: square_def)
  have "?maxes ! j = foldl np_maximum (M ! 0 ! j) (map (\<lambda>k. M ! k ! j) [1..<n])"
    if j: "j < n" for j
  proof -
    have "hd (map (\<lambda>row. row ! j) M) = M ! 0 ! j"
      using ne by (simp add: hd_map hd_conv_nth)
    moreover have "tl (map (\<lambda>row. row ! j) M) = map (\<lambda>k. M ! k ! j) [1..<n]"
      using tl_upt [OF l] by (simp add: map_tl [symmetric] comp_def)
    ultimately show ?thesis
      using j lt by (simp add: mat_T_row [OF assms(1) j])
  qed
  then show ?thesis
    using ne lt by (simp add: np_amax_axis0_def)
qed

lemma sim_enhancement_entries:
  assumes "square n S" and "0 < n"
  shows "\<exists>R. sim_enhancement S = Inr R \<and> square n R \<and>
           (\<forall>i<n. \<forall>j<n. R ! i ! j = np_div (diffusion_entry n S i j) (column_max n S j))"
proof -
  let ?D = "diffusion (sym S)"
  have sq: "square n ?D"
    by (rule diffusion_square [OF sym_square [OF assms(1)]])
  have l: "length ?D = n" using sq by (simp add: square_def)
  from np_amax_axis0_nth [OF sq assms(2)] obtain maxes where
    mx: "np_amax_axis0 ?D = Inr maxes" and lm: "length maxes = n" and
    mj: "\<And>j. j < n \<Longrightarrow> maxes ! j = foldl np_maximum (?D ! 0 ! j) (map (\<lambda>k. ?D ! k ! j) [1..<n])"
    by blast
  have cm: "maxes ! j = column_max n S j" if j: "j < n" for j
  proof -
    have eq: "map (\<lambda>k. ?D ! k ! j) [1..<n] = map (\<lambda>k. diffusion_entry n S k j) [1..<n]"
      using j assms(1) by (simp add: diffusion_sym_nth)
    show ?thesis
      by (simp only: mj [OF j] eq diffusion_sym_nth [OF assms(1) assms(2) j] column_max_def)
  qed
  let ?R = "map (\<lambda>row. map2 np_div row maxes) ?D"
  have r: "sim_enhancement S = Inr ?R"
    by (simp add: sim_enhancement_def row_max_norm_def mx)
  have sr: "square n ?R"
    using l lm square_row [OF sq] by (intro squareI) simp_all
  have "?R ! i ! j = np_div (diffusion_entry n S i j) (column_max n S j)"
    if "i < n" "j < n" for i j
    using that l lm square_row [OF sq that(1)] cm [OF that(2)]
      diffusion_sym_nth [OF assms(1) that]
    by simp
  with r sr show ?thesis by blast
qed

subsection \<open>Entries that are not negative\<close>

lemma round_half_even_nonneg: "0 \<le> q \<Longrightarrow> 0 \<le> round_half_even q"
  by (auto simp: round_half_even_def Let_def)

lemma pow2_pos: "0 < pow2 k"
  by (simp add: pow2_def)

lemma binary64_nonneg: "0 \<le> q \<Longrightarrow> nonneg (binary64 q)"
  by (auto simp: binary64_def Let_def inf_of_sign_def round_half_even_nonneg pow2_pos
      less_imp_le sgn_if)

lemma np_maximum_not_negative:
  "nonneg a \<or> a = NaN \<Longrightarrow> nonneg b \<or> b = NaN \<Longrightarrow>
   nonneg (np_maximum a b) \<or> np_maximum a b = NaN"
  by (cases a; cases b) auto

lemma np_mul_fl_not_negative:
  assumes "\<forall>q. 0 \<le> q \<longrightarrow> nonneg (fl q)"
  shows "nonneg a \<or> a = NaN \<Longrightarrow> nonneg b \<or> b = NaN \<Longrightarrow>
         nonneg (np_mul_fl fl a b) \<or> np_mul_fl fl a b = NaN"
  using assms by (cases a; cases b) (auto simp: inf_of_sign_def)

lemma np_add_fl_not_negative:
  assumes "\<forall>q. 0 \<le> q \<longrightarrow> nonneg (fl q)"
  shows "nonneg a \<or> a = NaN \<Longrightarrow> nonneg b \<or> b = NaN \<Longrightarrow>
         nonneg (np_add_fl fl a b) \<or> np_add_fl fl a b = NaN"
  using assms by (cases a; cases b) auto

lemma np_div_fl_not_negative:
  assumes "\<forall>q. 0 \<le> q \<longrightarrow> nonneg (fl q)"
  shows "nonneg a \<or> a = NaN \<Longrightarrow> nonneg b \<or> b = NaN \<Longrightarrow>
         nonneg (np_div_fl fl a b) \<or> np_div_fl fl a b = NaN"
  using assms by (cases a; cases b) (auto simp: inf_of_sign_def)

lemma np_div_fl_nonneg:
  assumes "\<forall>q. 0 \<le> q \<longrightarrow> nonneg (fl q)"
  shows "nonneg a \<Longrightarrow> 0 < m \<Longrightarrow> nonneg (np_div_fl fl a (Fin m))"
  using assms by (cases a) auto

lemma foldl_not_negative:
  assumes "\<And>a b. nonneg a \<or> a = NaN \<Longrightarrow> nonneg b \<or> b = NaN \<Longrightarrow> nonneg (f a b) \<or> f a b = NaN"
  shows "nonneg a \<or> a = NaN \<Longrightarrow> \<forall>x\<in>set xs. nonneg x \<or> x = NaN \<Longrightarrow>
         nonneg (foldl f a xs) \<or> foldl f a xs = NaN"
proof (induction xs arbitrary: a)
  case Nil
  then show ?case by simp
next
  case (Cons x xs)
  have "nonneg (f a x) \<or> f a x = NaN"
    using Cons.prems by (intro assms) simp_all
  from Cons.IH [OF this] Cons.prems(2) show ?case
    by simp
qed

lemma foldl_np_maximum_NaN: "foldl np_maximum NaN xs = NaN"
  by (induction xs) simp_all

lemma np_maximum_NaN_right: "np_maximum a NaN = NaN"
  by (cases a) simp_all

lemma foldl_np_maximum_Fin:
  "foldl np_maximum a xs = Fin m \<Longrightarrow> a \<noteq> NaN \<and> (\<forall>x\<in>set xs. x \<noteq> NaN)"
proof (induction xs arbitrary: a)
  case Nil
  then show ?case by auto
next
  case (Cons x xs)
  from Cons.prems have f: "foldl np_maximum (np_maximum a x) xs = Fin m"
    by simp
  from Cons.IH [OF f] have "np_maximum a x \<noteq> NaN" and "\<forall>y\<in>set xs. y \<noteq> NaN"
    by simp_all
  moreover from \<open>np_maximum a x \<noteq> NaN\<close> have "a \<noteq> NaN" and "x \<noteq> NaN"
    by (auto simp: np_maximum_NaN_right)
  ultimately show ?case
    by simp
qed

lemma diffusion_fl_square:
  assumes "square n M"
  shows "square n (diffusion_fl fl M)"
proof (rule squareI)
  have l: "length M = n" using assms by (simp add: square_def)
  then show "length (diffusion_fl fl M) = n"
    by (simp add: diffusion_fl_def np_dot_fl_def)
  fix i assume "i < n"
  with l show "length (diffusion_fl fl M ! i) = n"
    using assms by (simp add: diffusion_fl_def np_dot_fl_def mat_T_mat_T [OF assms] square_def)
qed

lemma diffusion_fl_nth:
  assumes "square n M" and "i < n" and "j < n"
  shows "diffusion_fl fl M ! i ! j =
         foldl (np_add_fl fl) (Fin 0)
           (map (\<lambda>k. np_mul_fl fl (M ! i ! k) (M ! j ! k)) [0..<n])"
proof -
  have l: "length M = n" using assms(1) by (simp add: square_def)
  have "diffusion_fl fl M ! i ! j =
      foldl (np_add_fl fl) (Fin 0) (map2 (np_mul_fl fl) (M ! i) (M ! j))"
    using l assms(2,3) by (simp add: diffusion_fl_def np_dot_fl_def mat_T_mat_T [OF assms(1)])
  also have "map2 (np_mul_fl fl) (M ! i) (M ! j) =
      map (\<lambda>k. np_mul_fl fl (M ! i ! k) (M ! j ! k)) [0..<n]"
    using square_row [OF assms(1,2)] square_row [OF assms(1,3)] by (rule map2_upt)
  finally show ?thesis .
qed

lemma diffusion_fl_not_negative:
  assumes "\<forall>q. 0 \<le> q \<longrightarrow> nonneg (fl q)"
    and "square n S" and "\<forall>i<n. \<forall>j<n. nonneg (S ! i ! j)"
    and "i < n" and "j < n"
  shows "nonneg (diffusion_fl fl (sym S) ! i ! j) \<or> diffusion_fl fl (sym S) ! i ! j = NaN"
proof -
  have y: "nonneg (sym S ! a ! b) \<or> sym S ! a ! b = NaN" if "a < n" "b < n" for a b
    using that assms(3) np_maximum_not_negative [of "S ! a ! b" "S ! b ! a"]
    by (simp add: sym_nth [OF assms(2) that] sym_entry_def)
  have "\<forall>x\<in>set (map (\<lambda>k. np_mul_fl fl (sym S ! i ! k) (sym S ! j ! k)) [0..<n]).
      nonneg x \<or> x = NaN"
  proof
    fix x assume "x \<in> set (map (\<lambda>k. np_mul_fl fl (sym S ! i ! k) (sym S ! j ! k)) [0..<n])"
    then obtain k where k: "k < n" and x: "x = np_mul_fl fl (sym S ! i ! k) (sym S ! j ! k)"
      by auto
    show "nonneg x \<or> x = NaN"
      unfolding x
      by (rule np_mul_fl_not_negative [OF assms(1) y [OF assms(4) k] y [OF assms(5) k]])
  qed
  then have "nonneg (foldl (np_add_fl fl) (Fin 0)
        (map (\<lambda>k. np_mul_fl fl (sym S ! i ! k) (sym S ! j ! k)) [0..<n])) \<or>
      foldl (np_add_fl fl) (Fin 0)
        (map (\<lambda>k. np_mul_fl fl (sym S ! i ! k) (sym S ! j ! k)) [0..<n]) = NaN"
    by (intro foldl_not_negative np_add_fl_not_negative [OF assms(1)]) simp_all
  then show ?thesis
    by (simp only: diffusion_fl_nth [OF sym_square [OF assms(2)] assms(4,5)])
qed

lemma sim_enhancement_fl_not_negative:
  assumes "\<forall>q. 0 \<le> q \<longrightarrow> nonneg (fl q)"
    and "square n S" and "\<forall>i<n. \<forall>j<n. nonneg (S ! i ! j)"
    and "i < n" and "j < n"
  shows "\<exists>R maxes. sim_enhancement_fl fl S = Inr R \<and>
           np_amax_axis0 (diffusion_fl fl (sym S)) = Inr maxes \<and>
           (nonneg (R ! i ! j) \<or> R ! i ! j = NaN) \<and>
           (\<forall>m. maxes ! j = Fin m \<and> m \<noteq> 0 \<longrightarrow> nonneg (R ! i ! j))"
proof -
  let ?D = "diffusion_fl fl (sym S)"
  have n: "0 < n" using assms(4) by simp
  have sq: "square n ?D"
    by (rule diffusion_fl_square [OF sym_square [OF assms(2)]])
  have l: "length ?D = n" using sq by (simp add: square_def)
  have d: "nonneg (?D ! a ! b) \<or> ?D ! a ! b = NaN" if "a < n" "b < n" for a b
    by (rule diffusion_fl_not_negative [OF assms(1,2,3) that])
  from np_amax_axis0_nth [OF sq n] obtain maxes where
    mx: "np_amax_axis0 ?D = Inr maxes" and lm: "length maxes = n" and
    mj: "maxes ! j = foldl np_maximum (?D ! 0 ! j) (map (\<lambda>k. ?D ! k ! j) [1..<n])"
    using assms(5) by blast
  let ?col = "map (\<lambda>k. ?D ! k ! j) [1..<n]"
  have col: "\<forall>x\<in>set ?col. nonneg x \<or> x = NaN"
    using d assms(5) by auto
  have m: "nonneg (maxes ! j) \<or> maxes ! j = NaN"
    unfolding mj
    by (intro foldl_not_negative np_maximum_not_negative d [OF n assms(5)] col)
  let ?R = "map (\<lambda>row. map2 (np_div_fl fl) row maxes) ?D"
  have r: "sim_enhancement_fl fl S = Inr ?R"
    by (simp add: sim_enhancement_fl_def row_max_norm_fl_def mx)
  have rij: "?R ! i ! j = np_div_fl fl (?D ! i ! j) (maxes ! j)"
    using assms(4,5) l lm square_row [OF sq assms(4)] by simp
  have a: "nonneg (?R ! i ! j) \<or> ?R ! i ! j = NaN"
    unfolding rij by (rule np_div_fl_not_negative [OF assms(1) d [OF assms(4,5)] m])
  have b: "nonneg (?R ! i ! j)" if mm: "maxes ! j = Fin mval" "mval \<noteq> 0" for mval
  proof -
    from m mm have pos: "0 < mval" by simp
    from mm(1) have f: "foldl np_maximum (?D ! 0 ! j) ?col = Fin mval"
      by (simp only: mj)
    from foldl_np_maximum_Fin [OF f] have z: "?D ! 0 ! j \<noteq> NaN" "\<forall>x\<in>set ?col. x \<noteq> NaN"
      by simp_all
    have "?D ! i ! j \<noteq> NaN"
    proof (cases "i = 0")
      case True
      with z(1) show ?thesis by simp
    next
      case False
      with assms(4) have "?D ! i ! j \<in> set ?col"
        by (auto simp: image_iff intro!: bexI [of _ i])
      with z(2) show ?thesis by blast
    qed
    with d [OF assms(4,5)] have "nonneg (?D ! i ! j)" by simp
    from np_div_fl_nonneg [OF assms(1) this pos] show ?thesis
      by (simp only: rij mm(1))
  qed
  from r mx a b show ?thesis
    by blast
qed

lemma np_fl_exact:
  "np_mul_fl Fin a b = np_mul a b" "np_add_fl Fin a b = np_add a b"
  "np_div_fl Fin a b = np_div a b"
  by (cases a; cases b; simp)+

lemma sim_enhancement_fl_exact: "sim_enhancement_fl Fin S = sim_enhancement S"
proof -
  have eqs: "np_mul_fl Fin = np_mul" "np_add_fl Fin = np_add" "np_div_fl Fin = np_div"
    by (intro ext, simp add: np_fl_exact)+
  show ?thesis
    unfolding sim_enhancement_fl_def sim_enhancement_def row_max_norm_fl_def
      row_max_norm_def diffusion_fl_def diffusion_def np_dot_fl_def np_dot_def eqs ..
qed

subsection \<open>Cluster estimators\<close>

lemma select_columns_none:
  assumes "list_all (\<lambda>row. length row = length kmask) a" and "\<forall>b\<in>set kmask. \<not> b"
  shows "select_columns kmask a = Inr (map (\<lambda>row. []) a)"
proof -
  have "filter fst (zip kmask row) = []" for row :: "npfloat list"
    using assms(2) by (auto simp: filter_empty_conv dest: set_zip_leftD)
  with assms(1) show ?thesis
    by (simp add: select_columns_def)
qed

text \<open>
  The enhancer on references computes what the enhancer computes on the contents, and
  it only adds arrays to the store: the symmetrized array, the diffused array and, when
  the column maxima exist, their array and the result.
\<close>

lemma sim_enhancement_ref_Inr:
  assumes "sim_enhancement (h ! S) = Inr enhanced"
  shows "\<exists>maxes. sim_enhancement_ref h S =
           (Inr (length h + 3),
            h @ [sym (h ! S), diffusion (sym (h ! S)), [maxes], enhanced])"
proof -
  let ?Y = "sym (h ! S)"
  let ?D = "diffusion ?Y"
  from assms obtain maxes where
    mx: "np_amax_axis0 ?D = Inr maxes" and
    en: "enhanced = map (\<lambda>row. map2 np_div row maxes) ?D"
    by (auto simp: sim_enhancement_def row_max_norm_def split: sum.splits)
  have y: "sym_ref h S = (length h, h @ [?Y])"
    by (simp add: sym_ref_def np_maximum_ref_def new_array_def sym_def)
  have d: "diffusion_ref (h @ [?Y]) (length h) = (length h + 1, h @ [?Y, ?D])"
    by (simp add: diffusion_ref_def np_dot_ref_def new_array_def diffusion_def)
  have a: "np_amax_axis0_ref (h @ [?Y, ?D]) (length h + 1) =
      Inr (length h + 2, h @ [?Y, ?D, [maxes]])"
    by (simp add: np_amax_axis0_ref_def new_array_def nth_append mx)
  have q: "np_divide_ref (h @ [?Y, ?D, [maxes]]) (length h + 1) (length h + 2) =
      (length h + 3, h @ [?Y, ?D, [maxes], enhanced])"
    by (simp add: np_divide_ref_def new_array_def nth_append en)
  have "row_max_norm_ref (h @ [?Y, ?D]) (length h + 1) =
      (Inr (length h + 3), h @ [?Y, ?D, [maxes], enhanced])"
    using a q by (simp add: row_max_norm_ref_def)
  then have "sim_enhancement_ref h S =
      (Inr (length h + 3), h @ [?Y, ?D, [maxes], enhanced])"
    using d by (simp add: sim_enhancement_ref_def y)
  then show ?thesis
    by blast
qed

lemma sim_enhancement_ref_Inl:
  assumes "sim_enhancement (h ! S) = Inl err"
  shows "sim_enhancement_ref h S = (Inl err, h @ [sym (h ! S), diffusion (sym (h ! S))])"
proof -
  let ?Y = "sym (h ! S)"
  let ?D = "diffusion ?Y"
  from assms have mx: "np_amax_axis0 ?D = Inl err"
    by (auto simp: sim_enhancement_def row_max_norm_def split: sum.splits)
  have y: "sym_ref h S = (length h, h @ [?Y])"
    by (simp add: sym_ref_def np_maximum_ref_def new_array_def sym_def)
  have d: "diffusion_ref (h @ [?Y]) (length h) = (length h + 1, h @ [?Y, ?D])"
    by (simp add: diffusion_ref_def np_dot_ref_def new_array_def diffusion_def)
  have a: "np_amax_axis0_ref (h @ [?Y, ?D]) (length h + 1) = Inl err"
    by (simp add: np_amax_axis0_ref_def nth_append mx)
  show ?thesis
    using d a by (simp add: sim_enhancement_ref_def y row_max_norm_ref_def)
qed

lemma sim_enhancement_ref_fresh:
  "\<exists>new. snd (sim_enhancement_ref h S) = h @ new \<and>
     (\<forall>S'. fst (sim_enhancement_ref h S) = Inr S' \<longrightarrow>
        length h \<le> S' \<and> S' < length (h @ new))"
proof (cases "sim_enhancement (h ! S)")
  case (Inl err)
  from sim_enhancement_ref_Inl [OF this] show ?thesis
    by simp
next
  case (Inr enhanced)
  from sim_enhancement_ref_Inr [OF this] show ?thesis
    by auto
qed

lemma list_update_beyond:
  "length h \<le> r \<Longrightarrow> \<exists>new'. (h @ new)[r := x] = h @ new'"
  by (auto simp: list_update_append)

lemma spectral_clustering_heap:
  "\<exists>new. snd (spectral_clustering lib h S beta) = h @ new"
proof -
  from sim_enhancement_ref_fresh [of h S] obtain new where
    new: "snd (sim_enhancement_ref h S) = h @ new" and
    fresh: "\<And>S'. fst (sim_enhancement_ref h S) = Inr S' \<Longrightarrow> length h \<le> S'"
    by blast
  show ?thesis
  proof (cases "fst (sim_enhancement_ref h S)")
    case (Inl err)
    with new have "sim_enhancement_ref h S = (Inl err, h @ new)"
      by (simp add: prod_eq_iff)
    then show ?thesis
      by (simp add: spectral_clustering_def)
  next
    case (Inr S')
    with new have call: "sim_enhancement_ref h S = (Inr S', h @ new)"
      by (simp add: prod_eq_iff)
    from list_update_beyond [OF fresh [OF Inr]] obtain new2 where
      h2: "(h @ new)[S' := fill_diagonal ((h @ new) ! S') (Fin 0)] = h @ new2"
      by blast
    obtain L_norm after where lap: "laplacian lib ((h @ new2) ! S') = (L_norm, after)"
      by (cases "laplacian lib ((h @ new2) ! S')") auto
    from list_update_beyond [OF fresh [OF Inr]] obtain new3 where
      h3: "(h @ new2)[S' := after] = h @ new3"
      by blast
    show ?thesis
      by (auto simp: spectral_clustering_def call h2 lap h3 Let_def
          split: sum.splits prod.splits)
  qed
qed

section \<open>Claims\<close>

subsection \<open>Claims about the RTTM serializer\<close>

text \<open>
  C1. For every list of entries and every recording identifier the serializer returns
  one line per entry, in order: the word SPEAKER, the recording identifier, 0, the start
  with three decimals, the duration (end minus start) with three decimals, two
  placeholders, the label, two placeholders, the fields separated by single spaces, and a
  line feed at the end. For the entry (1, 5/2, 3) and the recording rec1 the line is
  SPEAKER rec1 0 1.000 1.500 <NA> <NA> 3 <NA> <NA> followed by a line feed.
\<close>

theorem rttm_lines_from_entries_format:
  "rttm_lines_from_entries entries rec_id =
     Inr (map (\<lambda>en. ''SPEAKER '' @ rec_id @ '' 0 '' @ format_3f (ent_s en) @ '' '' @
            format_3f (ent_e en - ent_s en) @ '' <NA> <NA> '' @ str_int (ent_id en) @
            '' <NA> <NA>'' @ [CHR 0x0A]) entries)
   \<and> rttm_lines_from_entries [\<lparr>ent_s = 1, ent_e = 5 / 2, ent_id = 3\<rparr>] ''rec1'' =
       Inr [''SPEAKER rec1 0 1.000 1.500 <NA> <NA> 3 <NA> <NA>'' @ [CHR 0x0A]]"
proof
  show "rttm_lines_from_entries entries rec_id =
     Inr (map (\<lambda>en. ''SPEAKER '' @ rec_id @ '' 0 '' @ format_3f (ent_s en) @ '' '' @
            format_3f (ent_e en - ent_s en) @ '' <NA> <NA> '' @ str_int (ent_id en) @
            '' <NA> <NA>'' @ [CHR 0x0A]) entries)"
    by (simp add: rttm_lines_from_entries_def rttm_loop_map)
next
  have a: "format_3f 1 = ''1.000''" and b: "format_3f (3 / 2) = ''1.500''"
    by (simp_all add: format_3f_def round_half_even_def str_nat.simps digit_char_def)
  have c: "str_int 3 = ''3''"
    by (simp add: str_int_def str_nat.simps digit_char_def)
  show "rttm_lines_from_entries [\<lparr>ent_s = 1, ent_e = 5 / 2, ent_id = 3\<rparr>] ''rec1'' =
       Inr [''SPEAKER rec1 0 1.000 1.500 <NA> <NA> 3 <NA> <NA>'' @ [CHR 0x0A]]"
    by (simp add: rttm_lines_from_entries_def rttm_loop_map a b c)
qed

subsection \<open>Claims about the segment merger\<close>

text \<open>
  C3. When the end of the open interval is strictly less than the start of the next
  segment, the entries so far are kept as they are and a new entry with the segment's
  start, end and label is added, whether or not the two labels are equal. For the
  segments (0,1), (2,3) with labels A, A the result is the two entries
  (0, 1, A) and (2, 3, A).
\<close>

theorem assign_segments_gap:
  "(length ls = length evs \<and> assign_segments ls evs \<noteq> [] \<and>
      ent_e (last (assign_segments ls evs)) < start
    \<longrightarrow> assign_segments (ls @ [plabel]) (evs @ [(start, end)]) =
        assign_segments ls evs @ [\<lparr>ent_s = start, ent_e = end, ent_id = plabel\<rparr>])
   \<and> assign_segments [A, A] [(0, 1), (2, 3)] =
       [\<lparr>ent_s = 0, ent_e = 1, ent_id = A\<rparr>, \<lparr>ent_s = 2, ent_e = 3, ent_id = A\<rparr>]"
  by (simp add: assign_segments_snoc) (simp add: assign_segments_def assign_step_def)

theorem assign_segments_gap_witness:
  "length [7::int] = length [(0::rat, 1::rat)] \<and> assign_segments [7] [(0, 1)] \<noteq> [] \<and>
   ent_e (last (assign_segments [7] [(0, 1)])) < 2 \<and>
   assign_segments ([7] @ [7]) ([(0, 1)] @ [(2, 3)]) =
     assign_segments [7] [(0, 1)] @ [\<lparr>ent_s = 2, ent_e = 3, ent_id = 7\<rparr>]"
proof -
  have h: "length [7::int] = length [(0::rat, 1::rat)] \<and> assign_segments [7] [(0, 1)] \<noteq> [] \<and>
      ent_e (last (assign_segments [7] [(0, 1)])) < 2"
    by (simp add: assign_segments_def assign_step_def)
  from assign_segments_gap [of "[7]" "[(0, 1)]" 2 7 3 7] h show ?thesis
    by blast
qed

text \<open>
  C2 (as amended). When the next segment does not start after the end of the open
  interval and its label differs from the label of the open interval, the open interval
  is closed at the arithmetic midpoint of its current end and the segment's start, and a
  new interval is opened that starts at the same midpoint, ends at the segment's end and
  carries the segment's label. For the segments (0,1), (1,2), (2,3) with labels A, A, B,
  where A and B differ, the second segment first extends the open interval to 2, so the
  midpoint of 2 and 2 is 2 and the result is (0, 2, A), (2, 3, B).
\<close>

theorem assign_segments_midpoint:
  "(length ls = length evs \<and> assign_segments ls evs \<noteq> [] \<and>
      \<not> ent_e (last (assign_segments ls evs)) < start \<and>
      ent_id (last (assign_segments ls evs)) \<noteq> plabel
    \<longrightarrow> assign_segments (ls @ [plabel]) (evs @ [(start, end)]) =
        butlast (assign_segments ls evs) @
          [(last (assign_segments ls evs))
             \<lparr>ent_e := (ent_e (last (assign_segments ls evs)) + start) / 2\<rparr>,
           \<lparr>ent_s = (ent_e (last (assign_segments ls evs)) + start) / 2,
            ent_e = end, ent_id = plabel\<rparr>])
   \<and> (A \<noteq> B \<longrightarrow> assign_segments [A, A, B] [(0, 1), (1, 2), (2, 3)] =
       [\<lparr>ent_s = 0, ent_e = 2, ent_id = A\<rparr>, \<lparr>ent_s = 2, ent_e = 3, ent_id = B\<rparr>])"
  by (simp add: assign_segments_snoc)
     (simp add: assign_segments_def assign_step_def Let_def)

theorem assign_segments_midpoint_witness:
  "length [4::int] = length [(0::rat, 2::rat)] \<and> assign_segments [4] [(0, 2)] \<noteq> [] \<and>
   \<not> ent_e (last (assign_segments [4] [(0, 2)])) < 1 \<and>
   ent_id (last (assign_segments [4] [(0, 2)])) \<noteq> 9 \<and>
   assign_segments ([4] @ [9]) ([(0, 2)] @ [(1, 3)]) =
     [\<lparr>ent_s = 0, ent_e = 3 / 2, ent_id = 4\<rparr>, \<lparr>ent_s = 3 / 2, ent_e = 3, ent_id = 9\<rparr>]
   \<and> (4::int) \<noteq> 9
   \<and> assign_segments [4, 4, 9] [(0, 1), (1, 2), (2, 3)] =
       [\<lparr>ent_s = 0, ent_e = 2, ent_id = 4\<rparr>, \<lparr>ent_s = 2, ent_e = 3, ent_id = 9\<rparr>]"
proof -
  have h: "assign_segments [4] [(0, 2)] = [\<lparr>ent_s = 0, ent_e = 2, ent_id = 4\<rparr>]"
    by (simp add: assign_segments_def assign_step_def)
  from assign_segments_midpoint [of "[4]" "[(0, 2)]" 1 9 3 4 9] show ?thesis
    unfolding h by simp
qed

text \<open>
  The example of C2 as it was stated: the result for the labels 4, 4, 9 is not
  (0, 3/2, 4), (3/2, 3, 9).
\<close>

theorem assign_segments_midpoint_counterexample:
  "assign_segments [4, 4, 9] [(0, 1), (1, 2), (2, 3)] =
     [\<lparr>ent_s = 0, ent_e = 2, ent_id = 4\<rparr>, \<lparr>ent_s = 2, ent_e = 3, ent_id = 9\<rparr>]
   \<and> assign_segments [4, 4, 9] [(0, 1), (1, 2), (2, 3)] \<noteq>
     [\<lparr>ent_s = 0, ent_e = 3 / 2, ent_id = 4\<rparr>, \<lparr>ent_s = 3 / 2, ent_e = 3, ent_id = 9\<rparr>]"
  by (simp add: assign_segments_def assign_step_def Let_def)

text \<open>
  C10. For labels and segments of the same, non-zero length, the first entry starts at
  the start of the first segment and the last entry ends at the end of the last segment.
\<close>

theorem assign_segments_outer_endpoints:
  assumes "ls \<noteq> []" and "length ls = length evs"
  shows "assign_segments ls evs \<noteq> [] \<and>
         ent_s (hd (assign_segments ls evs)) = fst (hd evs) \<and>
         ent_e (last (assign_segments ls evs)) = snd (last evs)"
proof -
  from assms have ne: "evs \<noteq> []" by auto
  obtain l ls' where ls: "ls = l # ls'"
    using assms(1) by (cases ls) auto
  obtain ev evs' where evs: "evs = ev # evs'"
    using ne by (cases evs) auto
  have first: "assign_segments ls evs =
      foldl assign_step [\<lparr>ent_s = fst ev, ent_e = snd ev, ent_id = l\<rparr>] (zip ls' evs')"
    by (cases ev) (simp add: assign_segments_def ls evs assign_step_def)
  have a: "ent_s (hd (assign_segments ls evs)) = fst (hd evs)"
    unfolding first by (simp add: foldl_assign_step_hd evs)
  obtain ks k where ks: "ls = ks @ [k]"
    using assms(1) by (metis rev_exhaust)
  obtain fs f where fs: "evs = fs @ [f]"
    using ne by (metis rev_exhaust)
  from assms(2) have len: "length ks = length fs"
    by (simp add: ks fs)
  have b: "ent_e (last (assign_segments ls evs)) = snd (last evs)"
    unfolding ks fs by (cases f) (simp add: assign_segments_snoc [OF len] assign_step_last)
  from assign_segments_nonempty [OF assms(1) ne] a b show ?thesis
    by simp
qed

theorem assign_segments_outer_endpoints_witness:
  "[4, 4, 9] \<noteq> ([]::int list) \<and> length [4::int, 4, 9] = length [(0::rat, 1::rat), (1, 2), (2, 3)] \<and>
   assign_segments [4, 4, 9] [(0, 1), (1, 2), (2, 3)] \<noteq> [] \<and>
   ent_s (hd (assign_segments [4, 4, 9] [(0, 1), (1, 2), (2, 3)])) = 0 \<and>
   ent_e (last (assign_segments [4, 4, 9] [(0, 1), (1, 2), (2, 3)])) = 3"
proof -
  have h1: "[4, 4, 9] \<noteq> ([]::int list)" by simp
  have h2: "length [4::int, 4, 9] = length [(0::rat, 1::rat), (1, 2), (2, 3)]" by simp
  from assign_segments_outer_endpoints [OF h1 h2] show ?thesis
    by simp
qed

text \<open>
  C4 (as amended). In the result of the merger, every entry ends no later than the
  next one starts, and two neighbouring entries carry different labels unless there is
  a gap between them: if the labels are equal, the first ends strictly before the
  second starts.
\<close>

theorem assign_segments_ordered:
  "Suc i < length (assign_segments ls evs) \<longrightarrow>
     ent_e (assign_segments ls evs ! i) \<le> ent_s (assign_segments ls evs ! Suc i) \<and>
     (ent_id (assign_segments ls evs ! i) = ent_id (assign_segments ls evs ! Suc i) \<longrightarrow>
        ent_e (assign_segments ls evs ! i) < ent_s (assign_segments ls evs ! Suc i))"
  using successively_nth [OF assign_segments_apart, of i ls evs]
  by (simp add: apart_def)

theorem assign_segments_ordered_witness:
  "Suc 0 < length (assign_segments [5, 5] [(0, 1), (2, 3)]) \<and>
   ent_e (assign_segments [5, 5] [(0, 1), (2, 3)] ! 0)
     \<le> ent_s (assign_segments [5, 5] [(0, 1), (2, 3)] ! Suc 0) \<and>
   ent_id (assign_segments [5, 5] [(0, 1), (2, 3)] ! 0)
     = ent_id (assign_segments [5, 5] [(0, 1), (2, 3)] ! Suc 0) \<and>
   ent_e (assign_segments [5, 5] [(0, 1), (2, 3)] ! 0)
     < ent_s (assign_segments [5, 5] [(0, 1), (2, 3)] ! Suc 0)"
proof -
  have h: "assign_segments [5, 5] [(0, 1), (2, 3)] =
      [\<lparr>ent_s = 0, ent_e = 1, ent_id = 5\<rparr>, \<lparr>ent_s = 2, ent_e = 3, ent_id = 5\<rparr>]"
    by (simp add: assign_segments_def assign_step_def Let_def)
  from assign_segments_ordered [of 0 "[5, 5]" "[(0, 1), (2, 3)]"] show ?thesis
    unfolding h by simp
qed

text \<open>
  C4 as it was stated: the segments (0,1), (2,3) have equal length with the labels
  5, 5 and non-decreasing times, and the two entries of the result carry the same label.
\<close>

theorem assign_segments_ordered_counterexample:
  "length [5::int, 5] = length [(0::rat, 1::rat), (2, 3)] \<and>
   sorted [0::rat, 1, 2, 3] \<and>
   assign_segments [5, 5] [(0, 1), (2, 3)] =
     [\<lparr>ent_s = 0, ent_e = 1, ent_id = 5\<rparr>, \<lparr>ent_s = 2, ent_e = 3, ent_id = 5\<rparr>] \<and>
   Suc 0 < length (assign_segments [5, 5] [(0, 1), (2, 3)]) \<and>
   ent_id (assign_segments [5, 5] [(0, 1), (2, 3)] ! 0) =
     ent_id (assign_segments [5, 5] [(0, 1), (2, 3)] ! Suc 0)"
  by (simp add: assign_segments_def assign_step_def)

subsection \<open>Claims about the similarity enhancer\<close>

text \<open>
  C5. For a square array \<open>S\<close> the enhancer is the composition of the three steps, in
  this order: the symmetrized array has the entries \<open>max(S[i][j], S[j][i])\<close>; the
  diffused array has the entries \<open>sum over k of Y[i][k] * Y[j][k]\<close>, the product of
  \<open>Y\<close> with its transpose; and the result has the entries \<open>Y'[i][j]\<close> divided by the
  maximum over \<open>k\<close> of \<open>Y'[k][j]\<close>, the maximum of column \<open>j\<close>. On the array with the
  rows (1, 1) and (0, 2) the diffused array has the rows (2, 3) and (3, 5), and the
  entry in row 0 and column 1 is 3/5, its value divided by the maximum of column 1,
  not 1, its value divided by the maximum of row 0.
\<close>

theorem sim_enhancement_three_steps:
  assumes "square n S" and "i < n" and "j < n"
  shows "sim_enhancement S = row_max_norm (diffusion (sym S)) \<and>
         sym S ! i ! j = np_maximum (S ! i ! j) (S ! j ! i) \<and>
         diffusion (sym S) ! i ! j =
           foldl np_add (Fin 0) (map (\<lambda>k. np_mul (sym S ! i ! k) (sym S ! j ! k)) [0..<n]) \<and>
         (\<exists>R. sim_enhancement S = Inr R \<and> square n R \<and>
            R ! i ! j =
              np_div (diffusion (sym S) ! i ! j)
                (foldl np_maximum (diffusion (sym S) ! 0 ! j)
                   (map (\<lambda>k. diffusion (sym S) ! k ! j) [1..<n])) \<and>
            R ! i ! j = np_div (diffusion_entry n S i j) (column_max n S j))"
proof -
  have n: "0 < n" using assms(2) by simp
  have a: "sym S ! i ! j = np_maximum (S ! i ! j) (S ! j ! i)"
    using sym_nth [OF assms] by (simp add: sym_entry_def)
  have b: "diffusion (sym S) ! i ! j =
      foldl np_add (Fin 0) (map (\<lambda>k. np_mul (sym S ! i ! k) (sym S ! j ! k)) [0..<n])"
    by (rule diffusion_nth [OF sym_square [OF assms(1)] assms(2,3)])
  from sim_enhancement_entries [OF assms(1) n] assms(2,3) obtain R where
    R: "sim_enhancement S = Inr R" "square n R"
       "R ! i ! j = np_div (diffusion_entry n S i j) (column_max n S j)"
    by blast
  have eq: "map (\<lambda>k. diffusion (sym S) ! k ! j) [1..<n] =
      map (\<lambda>k. diffusion_entry n S k j) [1..<n]"
    using assms(1,3) by (simp add: diffusion_sym_nth)
  have c: "foldl np_maximum (diffusion (sym S) ! 0 ! j)
      (map (\<lambda>k. diffusion (sym S) ! k ! j) [1..<n]) = column_max n S j"
    by (simp only: eq diffusion_sym_nth [OF assms(1) n assms(3)] column_max_def)
  have d: "R ! i ! j =
      np_div (diffusion (sym S) ! i ! j)
        (foldl np_maximum (diffusion (sym S) ! 0 ! j)
           (map (\<lambda>k. diffusion (sym S) ! k ! j) [1..<n]))"
    by (simp only: c R(3) diffusion_sym_nth [OF assms])
  from a b R d show ?thesis
    by (auto simp: sim_enhancement_def)
qed

theorem sim_enhancement_three_steps_witness:
  "square 2 [[Fin 1, Fin 1], [Fin 0, Fin 2]] \<and>
   sym [[Fin 1, Fin 1], [Fin 0, Fin 2]] = [[Fin 1, Fin 1], [Fin 1, Fin 2]] \<and>
   diffusion (sym [[Fin 1, Fin 1], [Fin 0, Fin 2]]) = [[Fin 2, Fin 3], [Fin 3, Fin 5]] \<and>
   sim_enhancement [[Fin 1, Fin 1], [Fin 0, Fin 2]] =
     Inr [[Fin (2 / 3), Fin (3 / 5)], [Fin 1, Fin 1]] \<and>
   np_div (diffusion_entry 2 [[Fin 1, Fin 1], [Fin 0, Fin 2]] 0 1)
     (column_max 2 [[Fin 1, Fin 1], [Fin 0, Fin 2]] 1) = Fin (3 / 5)"
proof -
  let ?S = "[[Fin 1, Fin 1], [Fin 0, Fin 2]]"
  have sq: "square 2 ?S"
    by (simp add: square_def)
  have s: "sym ?S = [[Fin 1, Fin 1], [Fin 1, Fin 2]]"
    by (simp add: sym_def np_maximum_arr_def mat_T_def)
  have d: "diffusion [[Fin 1, Fin 1], [Fin 1, Fin 2]] = [[Fin 2, Fin 3], [Fin 3, Fin 5]]"
    by (simp add: diffusion_def np_dot_def mat_T_def)
  have r: "row_max_norm [[Fin 2, Fin 3], [Fin 3, Fin 5]] =
      Inr [[Fin (2 / 3), Fin (3 / 5)], [Fin 1, Fin 1]]"
    by (simp add: row_max_norm_def np_amax_axis0_def mat_T_def)
  have e: "sim_enhancement ?S = Inr [[Fin (2 / 3), Fin (3 / 5)], [Fin 1, Fin 1]]"
    by (simp add: sim_enhancement_def s d r)
  from sim_enhancement_three_steps [OF sq, of 0 1]
  have "np_div (diffusion_entry 2 ?S 0 1) (column_max 2 ?S 1) = Fin (3 / 5)"
    unfolding e by auto
  with sq s d e show ?thesis
    by simp
qed

text \<open>
  C6 (as amended). For a square array whose entries are not negative, whatever the
  rounding of the float format does to the non-negative values (it keeps them
  non-negative, or overflows to the positive infinity), no entry of the enhanced array
  is negative: every entry is non-negative or not-a-number, and the entry in row \<open>i\<close>
  and column \<open>j\<close> is non-negative when the maximum of column \<open>j\<close> of the diffused array
  is finite and not zero.
\<close>

theorem sim_enhancement_nonneg:
  assumes "square n S"
    and "\<forall>i<n. \<forall>j<n. nonneg (S ! i ! j)"
    and "\<forall>q. 0 \<le> q \<longrightarrow> nonneg (fl q)"
    and "i < n" and "j < n"
  shows "\<exists>R maxes. sim_enhancement_fl fl S = Inr R \<and>
           np_amax_axis0 (diffusion_fl fl (sym S)) = Inr maxes \<and>
           (nonneg (R ! i ! j) \<or> R ! i ! j = NaN) \<and>
           (\<forall>m. maxes ! j = Fin m \<and> m \<noteq> 0 \<longrightarrow> nonneg (R ! i ! j))"
  by (rule sim_enhancement_fl_not_negative [OF assms(3,1,2,4,5)])

theorem sim_enhancement_nonneg_witness:
  "square 2 [[Fin 1, Fin 0], [Fin 0, Fin 2]] \<and>
   sim_enhancement_fl binary64 [[Fin 1, Fin 0], [Fin 0, Fin 2]] =
     Inr [[Fin 1, Fin 0], [Fin 0, Fin 1]] \<and>
   np_amax_axis0 (diffusion_fl binary64 (sym [[Fin 1, Fin 0], [Fin 0, Fin 2]])) =
     Inr [Fin 1, Fin 4] \<and>
   nonneg ([[Fin 1, Fin 0], [Fin 0, Fin 1]] ! 1 ! 1)"
proof -
  let ?S = "[[Fin 1, Fin 0], [Fin 0, Fin 2]]"
  have sq: "square 2 ?S"
    by (simp add: square_def)
  have h1: "\<forall>i<2. \<forall>j<2. nonneg (?S ! i ! j)"
    by (simp add: less_Suc_eq numeral_2_eq_2)
  have h2: "\<forall>q. 0 \<le> q \<longrightarrow> nonneg (binary64 q)"
    by (simp add: binary64_nonneg)
  have e: "sim_enhancement_fl binary64 ?S = Inr [[Fin 1, Fin 0], [Fin 0, Fin 1]]"
    by code_simp
  have mx: "np_amax_axis0 (diffusion_fl binary64 (sym ?S)) = Inr [Fin 1, Fin 4]"
    by code_simp
  from sim_enhancement_nonneg [OF sq h1 h2, of 1 1]
  have "nonneg ([[Fin 1, Fin 0], [Fin 0, Fin 1]] ! 1 ! 1)"
    unfolding e mx by auto
  with sq e mx show ?thesis
    by simp
qed

text \<open>
  C6 as it was stated: the array with the single entry 0 is square and not negative;
  its only column has the maximum 0 after the diffusion, and 0 divided by 0 is
  not-a-number, which is not a non-negative entry, with exact arithmetic and with the
  rounding of the 64-bit format alike.
\<close>

theorem sim_enhancement_nonneg_counterexample:
  "square 1 [[Fin 0]] \<and> nonneg (Fin 0) \<and>
   sim_enhancement [[Fin 0]] = Inr [[NaN]] \<and>
   sim_enhancement_fl binary64 [[Fin 0]] = Inr [[NaN]] \<and> \<not> nonneg NaN"
  by (simp add: square_def sim_enhancement_def sym_def np_maximum_arr_def diffusion_def
      np_dot_def row_max_norm_def np_amax_axis0_def mat_T_def inf_of_sign_def
      sim_enhancement_fl_def diffusion_fl_def np_dot_fl_def row_max_norm_fl_def binary64_def)

subsection \<open>Claims about the cluster estimators\<close>

text \<open>
  C7. When the enhancer and the eigendecomposition succeed and no eigenvalue of the
  normalized Laplacian of the enhanced array with zero diagonal has a real part strictly
  less than \<open>beta\<close>, the mask selects no column of the eigenvectors, K-means is called with
  \<open>n_clusters = 0\<close>, and the error of that call is the result of the estimator: no labels
  are returned.
\<close>

theorem spectral_clustering_zero_clusters:
  assumes "sim_enhancement (h ! S) = Inr enhanced"
    and "laplacian lib (fill_diagonal enhanced (Fin 0)) = (L_norm, after)"
    and "eig lib L_norm = Inr (eigvals, eigvecs)"
    and "eigvecs \<noteq> []"
    and "list_all (\<lambda>row. length row = length eigvals) eigvecs"
    and "\<forall>v\<in>set eigvals. \<not> np_less (np_real v) (Fin beta)"
  shows "select_columns (map (\<lambda>v. np_less (np_real v) (Fin beta)) eigvals)
           (map (map np_real) eigvecs) = Inr (map (\<lambda>row. []) eigvecs) \<and>
         shape1 (map (\<lambda>row. []) eigvecs) = 0 \<and>
         KMeans_fit_predict lib 0 (map (\<lambda>row. []) eigvecs) = Inl ValueError \<and>
         fst (spectral_clustering lib h S beta) = Inl ValueError \<and>
         (\<forall>labels. fst (spectral_clustering lib h S beta) \<noteq> Inr labels)"
proof -
  let ?kmask = "map (\<lambda>v. np_less (np_real v) (Fin beta)) eigvals"
  let ?P = "map (\<lambda>row. []) eigvecs :: ndarray"
  have "list_all (\<lambda>row. length row = length ?kmask) (map (map np_real) eigvecs)"
    using assms(5) by (simp add: list_all_iff)
  moreover have "\<forall>b\<in>set ?kmask. \<not> b"
    using assms(6) by auto
  ultimately have sel: "select_columns ?kmask (map (map np_real) eigvecs) = Inr ?P"
    using select_columns_none [of ?kmask "map (map np_real) eigvecs"] by (simp add: comp_def)
  have sh: "shape1 ?P = 0"
    using assms(4) by (cases eigvecs) (simp_all add: shape1_def)
  have km: "KMeans_fit_predict lib 0 ?P = Inl ValueError"
    by (simp add: KMeans_fit_predict_def)
  from sim_enhancement_ref_Inr [OF assms(1)] obtain maxes where
    call: "sim_enhancement_ref h S =
      (Inr (length h + 3),
       h @ [sym (h ! S), diffusion (sym (h ! S)), [maxes], enhanced])"
    by blast
  have res: "fst (spectral_clustering lib h S beta) = Inl ValueError"
    by (simp add: spectral_clustering_def call nth_append assms(2,3) Let_def sel sh km)
  from sel sh km res show ?thesis
    by simp
qed

theorem spectral_clustering_zero_clusters_witness:
  "sim_enhancement ([[[Fin 1]]] ! 0) = Inr [[Fin 1]] \<and>
   \<not> np_less (np_real (Fin 0, Fin 0)) (Fin (- 1)) \<and>
   fst (spectral_clustering one_segment_library [[[Fin 1]]] 0 (- 1)) = Inl ValueError"
proof -
  have h1: "sim_enhancement ([[[Fin 1]]] ! 0) = Inr [[Fin 1]]"
    by (simp add: sim_enhancement_def sym_def np_maximum_arr_def diffusion_def np_dot_def
        row_max_norm_def np_amax_axis0_def mat_T_def)
  have h2: "laplacian one_segment_library (fill_diagonal [[Fin 1]] (Fin 0)) =
      ([[Fin 0]], [[Fin 0]])"
    by (simp add: one_segment_library_def fill_diagonal_def)
  have h3: "eig one_segment_library [[Fin 0]] = Inr ([(Fin 0, Fin 0)], [[(Fin 1, Fin 0)]])"
    by (simp add: one_segment_library_def)
  have h4: "[[(Fin 1, Fin 0)]] \<noteq> ([] :: npcomplex list list)"
    by simp
  have h5: "list_all (\<lambda>row. length row = length [(Fin 0, Fin 0)]) [[(Fin 1, Fin 0)]]"
    by simp
  have h6: "\<forall>v\<in>set [(Fin 0, Fin 0)]. \<not> np_less (np_real v) (Fin (- 1))"
    by (simp add: np_real_def)
  from spectral_clustering_zero_clusters [OF h1 h2 h3 h4 h5 h6] h1 h6 show ?thesis
    by simp
qed

text \<open>
  C8. Neither estimator changes the array of the caller. In the spectral estimator the
  enhancer only adds arrays to the store (each function of numpy that it calls returns
  a new array, and the transposed view is only read), the reference that it returns is
  one of the added arrays, and the diagonal is filled and the Laplacian computed in
  that array: the arrays that were in the store before the call, the array of the
  caller among them, are as they were, whatever the library functions write to the
  array that they are handed. The agglomerative estimator only calls scikit-learn,
  which leaves the store as it is.
\<close>

theorem estimators_leave_input_unchanged:
  assumes "S < length h"
  shows "snd (spectral_clustering lib h S beta) ! S = h ! S \<and>
         take (length h) (snd (spectral_clustering lib h S beta)) = h \<and>
         (sim_enhancement (h ! S) = Inr enhanced \<and>
          laplacian lib (fill_diagonal enhanced (Fin 0)) = (L_norm, after)
            \<longrightarrow> (\<exists>maxes. snd (spectral_clustering lib h S beta) =
                  h @ [sym (h ! S), diffusion (sym (h ! S)), [maxes], after])) \<and>
         snd (agg_clustering lib h S thresh) ! S = h ! S \<and>
         snd (agg_clustering lib h S thresh) = h"
proof -
  from spectral_clustering_heap obtain new where
    new: "snd (spectral_clustering lib h S beta) = h @ new"
    by blast
  have a: "snd (spectral_clustering lib h S beta) ! S = h ! S"
    using assms by (simp add: new nth_append)
  have b: "take (length h) (snd (spectral_clustering lib h S beta)) = h"
    by (simp add: new)
  have c: "\<exists>maxes. snd (spectral_clustering lib h S beta) =
      h @ [sym (h ! S), diffusion (sym (h ! S)), [maxes], after]"
    if en: "sim_enhancement (h ! S) = Inr enhanced"
      and lap: "laplacian lib (fill_diagonal enhanced (Fin 0)) = (L_norm, after)"
  proof -
    from sim_enhancement_ref_Inr [OF en] obtain maxes where
      call: "sim_enhancement_ref h S =
        (Inr (length h + 3),
         h @ [sym (h ! S), diffusion (sym (h ! S)), [maxes], enhanced])"
      by blast
    have "snd (spectral_clustering lib h S beta) =
        h @ [sym (h ! S), diffusion (sym (h ! S)), [maxes], after]"
      by (simp add: spectral_clustering_def call nth_append lap Let_def list_update_append
          split: sum.splits prod.splits)
    then show ?thesis
      by blast
  qed
  have d: "snd (agg_clustering lib h S thresh) = h"
    by (simp add: agg_clustering_def AgglomerativeClustering_fit_predict_def)
  from a b c d show ?thesis
    by simp
qed

theorem estimators_leave_input_unchanged_witness:
  "snd (spectral_clustering two_segment_library
          [[[Fin 1, Fin 0], [Fin 0, Fin 1]]] 0 1) ! 0 = [[Fin 1, Fin 0], [Fin 0, Fin 1]] \<and>
   snd (spectral_clustering two_segment_library [[[Fin 1, Fin 0], [Fin 0, Fin 1]]] 0 1) =
     [[[Fin 1, Fin 0], [Fin 0, Fin 1]], [[Fin 1, Fin 0], [Fin 0, Fin 1]],
      [[Fin 1, Fin 0], [Fin 0, Fin 1]], [[Fin 1, Fin 1]], [[Fin 0, Fin 0], [Fin 0, Fin 0]]] \<and>
   fst (spectral_clustering two_segment_library [[[Fin 1, Fin 0], [Fin 0, Fin 1]]] 0 1) =
     Inr [0, 1] \<and>
   agg_clustering two_segment_library [[[Fin 1, Fin 0], [Fin 0, Fin 1]]] 0 1 =
     (Inr [0, 0], [[[Fin 1, Fin 0], [Fin 0, Fin 1]]])"
proof -
  let ?I = "[[Fin 1, Fin 0], [Fin 0, Fin 1]]"
  have h0: "(0::nat) < length [?I]"
    by simp
  have run: "spectral_clustering two_segment_library [?I] 0 1 =
      (Inr [0, 1], [?I, ?I, ?I, [[Fin 1, Fin 1]], [[Fin 0, Fin 0], [Fin 0, Fin 0]]])"
    by code_simp
  have agg: "agg_clustering two_segment_library [?I] 0 1 = (Inr [0, 0], [?I])"
    by code_simp
  from estimators_leave_input_unchanged [OF h0, of two_segment_library 1]
  have "snd (spectral_clustering two_segment_library [?I] 0 1) ! 0 = [?I] ! 0"
    by blast
  with run agg show ?thesis
    by simp
qed

subsection \<open>Claims about the corpus aggregator\<close>

text \<open>
  C9 (as amended). When every file can be read, there is at least one line, the column
  index is not negative and every line, stripped and split at single spaces, has a field
  at that index, the aggregator returns the lines of the files (in file order, then line
  order) rearranged: the same lines as a multiset, in ascending order of the field,
  and, for each value of the field, the lines with that value in their original order.
  That is the stable sort of the lines by the field.
\<close>

theorem sort_and_cat_groups:
  assumes "\<forall>f\<in>set rttms. fs f \<noteq> None"
    and "file_lines fs rttms \<noteq> []"
    and "0 \<le> column"
    and "\<forall>line\<in>set (file_lines fs rttms). nat column < length (split_space (strip line))"
  shows "\<exists>out. sort_and_cat fs rttms column = Inr out \<and>
           mset out = mset (file_lines fs rttms) \<and>
           sorted (map (field_at column) out) \<and>
           (\<forall>k. filter (\<lambda>line. field_at column line = k) out =
                filter (\<lambda>line. field_at column line = k) (file_lines fs rttms)) \<and>
           out = sort_key (field_at column) (file_lines fs rttms)"
  using sort_and_cat_sort_key [OF assms]
  by (simp add: sort_key_stable)

theorem sort_and_cat_groups_witness:
  "0 \<le> (1::int) \<and>
   sort_and_cat
     (Map.empty(''f1'' \<mapsto> [''S b 1'' @ [CHR 0x0A], ''S a 2'' @ [CHR 0x0A]],
                ''f2'' \<mapsto> [''S a 3'' @ [CHR 0x0A], ''S b 4'' @ [CHR 0x0A]]))
     [''f1'', ''f2''] 1 =
   Inr [''S a 2'' @ [CHR 0x0A], ''S a 3'' @ [CHR 0x0A],
        ''S b 1'' @ [CHR 0x0A], ''S b 4'' @ [CHR 0x0A]]"
proof -
  let ?fs = "Map.empty(''f1'' \<mapsto> [''S b 1'' @ [CHR 0x0A], ''S a 2'' @ [CHR 0x0A]],
                       ''f2'' \<mapsto> [''S a 3'' @ [CHR 0x0A], ''S b 4'' @ [CHR 0x0A]])"
  have ls: "file_lines ?fs [''f1'', ''f2''] =
      [''S b 1'' @ [CHR 0x0A], ''S a 2'' @ [CHR 0x0A],
       ''S a 3'' @ [CHR 0x0A], ''S b 4'' @ [CHR 0x0A]]"
    by (simp add: file_lines_def)
  have h1: "\<forall>f\<in>set [''f1'', ''f2'']. ?fs f \<noteq> None"
    by simp
  have h2: "file_lines ?fs [''f1'', ''f2''] \<noteq> []"
    unfolding ls by simp
  have h3: "0 \<le> (1::int)"
    by simp
  have h4: "\<forall>line\<in>set (file_lines ?fs [''f1'', ''f2'']).
      nat 1 < length (split_space (strip line))"
    unfolding ls by (simp add: strip_def isspace_def)
  have k: "field_at 1 (''S b 1'' @ [CHR 0x0A]) = ''b''" "field_at 1 (''S a 2'' @ [CHR 0x0A]) = ''a''"
    "field_at 1 (''S a 3'' @ [CHR 0x0A]) = ''a''" "field_at 1 (''S b 4'' @ [CHR 0x0A]) = ''b''"
    by (simp_all add: field_at_def strip_def isspace_def)
  have lt: "''a'' < ''b''" "\<not> ''b'' \<le> ''a''"
    by (simp_all add: less_char_def less_eq_char_def)
  from sort_and_cat_groups [OF h1 h2 h3 h4] have
    "sort_and_cat ?fs [''f1'', ''f2''] 1 =
       Inr (sort_key (field_at 1) (file_lines ?fs [''f1'', ''f2'']))"
    by auto
  also have "sort_key (field_at 1) (file_lines ?fs [''f1'', ''f2'']) =
      [''S a 2'' @ [CHR 0x0A], ''S a 3'' @ [CHR 0x0A],
       ''S b 1'' @ [CHR 0x0A], ''S b 4'' @ [CHR 0x0A]]"
    unfolding ls using lt by (simp add: k insort_key.simps del: append.simps)
  finally have r: "sort_and_cat ?fs [''f1'', ''f2''] 1 =
      Inr [''S a 2'' @ [CHR 0x0A], ''S a 3'' @ [CHR 0x0A],
           ''S b 1'' @ [CHR 0x0A], ''S b 4'' @ [CHR 0x0A]]" .
  show ?thesis
    by (rule conjI [OF h3 r])
qed

text \<open>
  C9 as it was stated, for every list of files: with no file at all, and with a file
  that holds a blank line, there is no column at index 1 and the aggregator raises
  instead of returning lines. A line with two spaces in a row has an empty field at
  index 1, which sorts first: the line whose second word is b comes out before the line
  whose second word is a.
\<close>

theorem sort_and_cat_counterexample:
  "sort_and_cat Map.empty [] 1 = Inl IndexError \<and>
   sort_and_cat (Map.empty(''f1'' \<mapsto> [''S a 1'' @ [CHR 0x0A], [CHR 0x0A]])) [''f1''] 1
     = Inl IndexError \<and>
   sort_and_cat (Map.empty(''f1'' \<mapsto> [''S  b 1'' @ [CHR 0x0A], ''S a 2'' @ [CHR 0x0A]])) [''f1''] 1
     = Inr [''S  b 1'' @ [CHR 0x0A], ''S a 2'' @ [CHR 0x0A]]"
  by (simp add: sort_and_cat_def zip_star_def py_index_def strip_def isspace_def Let_def
      less_eq_char_def less_char_def)

end
